theory Spec2Isabelle
  imports Main "HOL-Library.Word" "HOL-Library.Monad_Syntax"
begin

unbundle bit_operations_syntax

section \<open>Global definitions (JDefs.h)\<close>

text \<open>
  The hash key type \<open>hkey\<close> is an unsigned machine word (\<open>unsigned long int\<close>, or
  \<open>unsigned long long int\<close> under \<open>_LARGESAMPLE\<close>); it is modelled as \<open>'a word\<close> for
  any width.  \<open>SMPSZE\<close> is \<open>sizeof(hkey) * 8\<close>, the number of bits of a key.
  File offsets (\<open>off_t\<close>) and \<open>int\<close> counters are modelled as unbounded integers:
  signed overflow is undefined in the source and is not part of the model.
\<close>

definition SMPSZE :: "'a::len itself \<Rightarrow> int" where
  "SMPSZE _ = int LENGTH('a)"

definition EOF :: int where "EOF = -1"
definition EOB :: int where "EOB = EOF - 1"

definition EXI_OK :: int where "EXI_OK = 0"
definition EXI_DIF :: int where "EXI_DIF = 1"
definition EXI_EQL :: int where "EXI_EQL = 2"
definition EXI_ARG :: int where "EXI_ARG = -2"
definition EXI_FRT :: int where "EXI_FRT = -3"
definition EXI_SCD :: int where "EXI_SCD = -4"
definition EXI_OUT :: int where "EXI_OUT = -5"
definition EXI_SEK :: int where "EXI_SEK = -6"
definition EXI_LRG :: int where "EXI_LRG = -7"
definition EXI_RED :: int where "EXI_RED = -8"
definition EXI_WRI :: int where "EXI_WRI = -9"
definition EXI_MEM :: int where "EXI_MEM = -10"
definition EXI_ERR :: int where "EXI_ERR = -20"

section \<open>The rolling hash (JDiff::hash)\<close>

text \<open>
  \<open>hash\<close> takes the previous byte and the equal-counter by reference; the model returns
  the new key together with the updated previous byte and equal-counter.
\<close>

definition JDiff_hash :: "'a::len word \<Rightarrow> int \<Rightarrow> int \<Rightarrow> int \<Rightarrow> 'a word \<times> int \<times> int" where
  "JDiff_hash akCurHsh acOld acNew aiEql =
     (let (acOld', aiEql') =
            (if acOld = acNew
             then (acOld, if aiEql < SMPSZE TYPE('a) then aiEql + 1 else aiEql)
             else (acNew, if aiEql \<noteq> 0 then 0 else aiEql))
      in (akCurHsh * 2 + of_int acNew + of_int aiEql', acOld', aiEql'))"

section \<open>The source index (JHashPos)\<close>

definition COLLISION_THRESHOLD :: int where "COLLISION_THRESHOLD = 4"
definition COLLISION_HIGH :: int where "COLLISION_HIGH = 4"
definition COLLISION_LOW :: int where "COLLISION_LOW = 1"

text \<open>
  The two parallel arrays \<open>mzHshTblPos\<close> and \<open>mkHshTblHsh\<close> have \<open>miHshPme\<close> elements;
  they are allocated with \<open>malloc\<close> and never cleared, so their initial content is arbitrary.
  The record is generic in the key type \<open>'k\<close>, which is always an \<open>'a word\<close> below.
\<close>

record 'k JHashPos =
  mzHshTblPos :: "int list"
  mkHshTblHsh :: "'k list"
  miHshPme :: int
  miHshColMax :: int
  miHshColCnt :: int
  miHshRlb :: int
  miLodCnt :: int
  miHshHit :: int

text \<open>The slot of a key: \<open>akCurHsh % miHshPme\<close> on unsigned operands.\<close>

definition hshIdx :: "'a::len word JHashPos \<Rightarrow> 'a word \<Rightarrow> nat" where
  "hshIdx s akCurHsh = nat (uint akCurHsh mod miHshPme s)"

definition JHashPos_init :: "int list \<Rightarrow> 'a::len word list \<Rightarrow> int \<Rightarrow> 'a word JHashPos" where
  "JHashPos_init tblPos tblHsh pme =
     \<lparr> mzHshTblPos = tblPos, mkHshTblHsh = tblHsh, miHshPme = pme,
       miHshColMax = COLLISION_THRESHOLD, miHshColCnt = COLLISION_THRESHOLD,
       miHshRlb = SMPSZE TYPE('a) + SMPSZE TYPE('a) div 2,
       miLodCnt = pme, miHshHit = 0 \<rparr>"

text \<open>The amount by which \<open>add\<close> lowers the collision counter for a sample quality.\<close>

definition colDec :: "'a::len itself \<Rightarrow> int \<Rightarrow> int" where
  "colDec t aiEqlCnt = (if aiEqlCnt \<le> SMPSZE t * 2 then COLLISION_HIGH else COLLISION_LOW)"

definition JHashPos_add :: "'a::len word JHashPos \<Rightarrow> 'a word \<Rightarrow> int \<Rightarrow> int \<Rightarrow> 'a word JHashPos" where
  "JHashPos_add s akCurHsh azPos aiEqlCnt =
     (let s1 = (if miLodCnt s > 0
                then s\<lparr>miLodCnt := miLodCnt s - 1\<rparr>
                else s\<lparr>miLodCnt := miHshPme s,
                       miHshColMax := miHshColMax s + COLLISION_THRESHOLD,
                       miHshRlb := miHshRlb s + 4\<rparr>);
          s2 = s1\<lparr>miHshColCnt := miHshColCnt s1 - colDec TYPE('a) aiEqlCnt\<rparr>
      in if miHshColCnt s2 \<le> 0
         then (let liIdx = hshIdx s2 akCurHsh
               in s2\<lparr>mkHshTblHsh := (mkHshTblHsh s2)[liIdx := akCurHsh],
                      mzHshTblPos := (mzHshTblPos s2)[liIdx := azPos],
                      miHshColCnt := miHshColMax s2\<rparr>)
         else s2)"

definition JHashPos_reset :: "'a::len word JHashPos \<Rightarrow> 'a word JHashPos" where
  "JHashPos_reset s =
     s\<lparr>miLodCnt := miHshPme s,
       miHshColMax := COLLISION_THRESHOLD,
       miHshColCnt := COLLISION_THRESHOLD,
       miHshRlb := SMPSZE TYPE('a) + SMPSZE TYPE('a) div 2\<rparr>"

text \<open>\<open>get\<close> returns the position found (\<open>None\<close> for \<open>false\<close>) and counts the hit.\<close>

definition JHashPos_get :: "'a::len word JHashPos \<Rightarrow> 'a word \<Rightarrow> int option \<times> 'a word JHashPos" where
  "JHashPos_get s akCurHsh =
     (let liIdx = hshIdx s akCurHsh
      in if mkHshTblHsh s ! liIdx = akCurHsh
         then (Some (mzHshTblPos s ! liIdx), s\<lparr>miHshHit := miHshHit s + 1\<rparr>)
         else (None, s))"

text \<open>A sequence of \<open>add\<close> calls, each with its key, position and sample quality.\<close>

definition JHashPos_adds :: "'a::len word JHashPos \<Rightarrow> ('a word \<times> int \<times> int) list \<Rightarrow> 'a word JHashPos" where
  "JHashPos_adds s ops = foldl (\<lambda>t (h, pos, eq). JHashPos_add t h pos eq) s ops"

section \<open>Feeding the index (JDiff::jdiff, JDiff::search, JDiff::buildFullIndex)\<close>

text \<open>
  The scanner state of the driver: the running key, the previous byte, the equal-counter,
  the position of the next byte to index and the index itself.
\<close>

record 'k JDiffScan =
  mlHshOrg :: 'k
  miPrvOrg :: int
  miEqlOrg :: int
  mzAhdOrg :: int
  gpHsh :: "'k JHashPos"

text \<open>
  The incremental scan, as it stands in \<open>jdiff\<close> (twice) and in \<open>search\<close>:
  \<^verbatim>\<open>mlHshOrg = hash(mlHshOrg, miPrvOrg, lcOrg, miEqlOrg); gpHsh->add(mlHshOrg, mzAhdOrg, miEqlOrg); mzAhdOrg++\<close>.
\<close>

definition scan_add :: "'a::len word JDiffScan \<Rightarrow> int \<Rightarrow> 'a word JDiffScan" where
  "scan_add d lcOrg =
     (let (h, prv, eql) = JDiff_hash (mlHshOrg d) (miPrvOrg d) lcOrg (miEqlOrg d)
      in d\<lparr>mlHshOrg := h, miPrvOrg := prv, miEqlOrg := eql,
            gpHsh := JHashPos_add (gpHsh d) h (mzAhdOrg d) eql,
            mzAhdOrg := mzAhdOrg d + 1\<rparr>)"

text \<open>The initialisation loop of \<open>buildFullIndex\<close> hashes without adding.\<close>

definition scan_hash :: "'a::len word JDiffScan \<Rightarrow> int \<Rightarrow> 'a word JDiffScan" where
  "scan_hash d lcOrg =
     (let (h, prv, eql) = JDiff_hash (mlHshOrg d) (miPrvOrg d) lcOrg (miEqlOrg d)
      in d\<lparr>mlHshOrg := h, miPrvOrg := prv, miEqlOrg := eql, mzAhdOrg := mzAhdOrg d + 1\<rparr>)"

text \<open>
  Modelled from the spec: \<open>JDiff.h\<close>, which declares and initialises the members
  \<open>mlHshOrg\<close>, \<open>miPrvOrg\<close>, \<open>miEqlOrg\<close> and \<open>mzAhdOrg\<close>, is not among the sources.
  The running hash starts at 0, the previous byte is unset and the equal-tail counter
  starts at 0.
\<close>

definition JDiff_scan_init :: "'a::len word JHashPos \<Rightarrow> 'a word JDiffScan" where
  "JDiff_scan_init hsh =
     \<lparr>mlHshOrg = 0, miPrvOrg = EOF, miEqlOrg = 0, mzAhdOrg = 0, gpHsh = hsh\<rparr>"

text \<open>
  The incremental scan over the values \<open>cs\<close> handed to it by the reader, in order.
\<close>

definition incremental_scan :: "'a::len word JDiffScan \<Rightarrow> int list \<Rightarrow> 'a word JDiffScan" where
  "incremental_scan d cs = foldl scan_add d cs"

text \<open>
  \<open>buildFullIndex\<close> over the bytes \<open>cs\<close> that the reader returns before its first result
  \<open>\<le> EOF\<close>: the first \<open>SMPSZE - 1\<close> bytes initialise the hash, every later byte is
  hashed and added at its position.  The locals start as \<open>lkHshOrg = 0\<close>,
  \<open>liEqlOrg = 0\<close>, \<open>lcValPrv = EOF\<close>; the position is pre-incremented from -1.
\<close>

definition full_scan_start :: "'a::len word JHashPos \<Rightarrow> int list \<Rightarrow> 'a word JDiffScan" where
  "full_scan_start hsh cs =
     foldl scan_hash \<lparr>mlHshOrg = 0, miPrvOrg = EOF, miEqlOrg = 0, mzAhdOrg = 0, gpHsh = hsh\<rparr>
       (take (nat (SMPSZE TYPE('a) - 1)) cs)"

definition buildFullIndex :: "'a::len word JHashPos \<Rightarrow> int list \<Rightarrow> 'a word JDiffScan" where
  "buildFullIndex hsh cs =
     foldl scan_add (full_scan_start hsh cs) (drop (nat (SMPSZE TYPE('a) - 1)) cs)"

text \<open>
  The arguments \<open>(key, position, quality)\<close> of the calls of \<open>add\<close> that a scan makes
  from state \<open>d\<close> over the values \<open>cs\<close>, in order.
\<close>

fun add_calls :: "'a::len word JDiffScan \<Rightarrow> int list \<Rightarrow> ('a word \<times> int \<times> int) list" where
  "add_calls d [] = []"
| "add_calls d (c # cs) =
     (let (h, prv, eql) = JDiff_hash (mlHshOrg d) (miPrvOrg d) c (miEqlOrg d)
      in (h, mzAhdOrg d, eql) # add_calls (scan_add d c) cs)"

section \<open>Translating the best match into skips (JDiff::search)\<close>

text \<open>
  The end of \<open>search\<close>, from the call of \<open>getbest\<close> on.  \<open>search_offsets\<close> is the
  branch taken when a match \<open>(lzFndOrg, lzFndNew)\<close> was found; it yields
  \<open>(azSkpOrg, azSkpNew, azAhd)\<close>.
\<close>

definition search_offsets :: "int \<Rightarrow> int \<Rightarrow> int \<Rightarrow> int \<Rightarrow> int \<Rightarrow> int \<times> int \<times> int" where
  "search_offsets azRedOrg azRedNew lzBseOrg lzFndOrg lzFndNew =
     (if lzFndOrg \<ge> azRedOrg then
        (if lzFndOrg - azRedOrg \<ge> lzFndNew - azRedNew
         then (lzFndOrg - azRedOrg + azRedNew - lzFndNew, 0, lzFndNew - azRedNew)
         else (0, lzFndNew - azRedNew + azRedOrg - lzFndOrg, lzFndOrg - azRedOrg))
      else
        (let azSkpOrg = azRedOrg - lzFndOrg + lzFndNew - azRedNew
         in if azSkpOrg \<le> azRedOrg - lzBseOrg
            then (- azSkpOrg, 0, lzFndNew - azRedNew)
            else (let azSkpNew = azSkpOrg - (azRedOrg - lzBseOrg)
                  in (lzBseOrg - azRedOrg, azSkpNew, (lzFndNew - azRedNew) - azSkpNew))))"

text \<open>
  \<open>search_end\<close> takes the last value read from the new file (\<open>miValNew\<close>), the ahead
  position \<open>mzAhdNew\<close>, the result of \<open>getbest\<close> (\<open>None\<close> for \<open>false\<close>) and the previous
  content of the three output parameters; it yields the return value and the outputs.
\<close>

definition search_end ::
  "'a::len itself \<Rightarrow> int \<Rightarrow> int \<Rightarrow> (int \<times> int) option \<Rightarrow> int \<Rightarrow> int \<Rightarrow> int
     \<Rightarrow> int \<times> int \<times> int \<Rightarrow> int \<times> int \<times> int \<times> int" where
  "search_end t miValNew mzAhdNew best azRedOrg azRedNew lzBseOrg outs =
     (if miValNew < EOB then (miValNew, outs)
      else case best of
        None \<Rightarrow>
          (let azAhd = mzAhdNew - azRedNew
           in (0, 0, 0, if azAhd < SMPSZE t then SMPSZE t else azAhd))
      | Some (lzFndOrg, lzFndNew) \<Rightarrow>
          (1, search_offsets azRedOrg azRedNew lzBseOrg lzFndOrg lzFndNew))"

section \<open>The length decoder of the patch reader (JPatcht::ufGetInt)\<close>

text \<open>
  The patch file is read sequentially, one \<open>jchar\<close> (an unsigned byte) at a time; at
  its end \<open>get\<close> returns \<open>EOF\<close>.  The offset type is the 64-bit \<open>off_t\<close> of the
  \<open>JDIFF_LARGEFILE\<close> configuration, the one in which the 8-byte form is decoded.
\<close>

type_synonym jchar = "8 word"
type_synonym off_t = "64 word"

definition JFile_get_next :: "jchar list \<Rightarrow> int \<times> jchar list" where
  "JFile_get_next fil = (case fil of [] \<Rightarrow> (EOF, []) | c # rest \<Rightarrow> (uint c, rest))"

text \<open>\<open>liVal = (liVal << 8) + apFil.get()\<close>\<close>

definition shiftGet :: "off_t \<times> jchar list \<Rightarrow> off_t \<times> jchar list" where
  "shiftGet p = (let (c, fil') = JFile_get_next (snd p) in (push_bit 8 (fst p) + of_int c, fil'))"

definition ufGetInt :: "jchar list \<Rightarrow> off_t \<times> jchar list" where
  "ufGetInt fil =
     (let (c0, fil0) = JFile_get_next fil; liVal = (of_int c0 :: off_t)
      in if liVal <s 252 then (liVal + 1, fil0)
         else if liVal = 252 then (let (c, fil1) = JFile_get_next fil0 in (of_int (253 + c), fil1))
         else if liVal = 253 then
           (let (c, fil1) = JFile_get_next fil0 in shiftGet (of_int c, fil1))
         else if liVal = 254 then
           (let (c, fil1) = JFile_get_next fil0
            in shiftGet (shiftGet (shiftGet (of_int c, fil1))))
         else
           (let (c, fil1) = JFile_get_next fil0
            in shiftGet (shiftGet (shiftGet (shiftGet (shiftGet (shiftGet (shiftGet
                 (of_int c, fil1)))))))))"

text \<open>
  The value of a byte sequence read as a big-endian number, as the length encoding of the
  patch format describes its multi-byte forms.
\<close>

definition big_endian :: "jchar list \<Rightarrow> int" where
  "big_endian cs = foldl (\<lambda>k c. k * 256 + uint c) 0 cs"

section \<open>Exit codes of the command-line program (main)\<close>

text \<open>
  After \<open>jdiff()\<close> has returned \<open>liRet\<close>, with \<open>gzOutBytDta\<close> data bytes written to the
  patch, \<open>main\<close> refines an \<open>EXI_OK\<close> and then leaves through the exit switch.
\<close>

definition main_diff_result :: "int \<Rightarrow> int \<Rightarrow> int" where
  "main_diff_result liRet gzOutBytDta =
     (if liRet = EXI_OK then (if gzOutBytDta > 0 then EXI_DIF else EXI_EQL) else liRet)"

definition main_exit :: "int \<Rightarrow> int" where
  "main_exit liRet =
     (if liRet = EXI_SEK then - EXI_SEK
      else if liRet = EXI_LRG then - EXI_LRG
      else if liRet = EXI_RED then - EXI_RED
      else if liRet = EXI_WRI then - EXI_WRI
      else if liRet = EXI_MEM then - EXI_MEM
      else if liRet = EXI_ARG then - EXI_ARG
      else if liRet = EXI_ERR then - EXI_ERR
      else if liRet = EXI_OK then EXI_OK
      else if liRet = EXI_EQL then EXI_OK
      else if liRet = EXI_DIF then EXI_DIF
      else - EXI_ERR)"


section \<open>The buffered reader (JFile, JFileAhead and its subclasses)\<close>

datatype eAhead = Read | HardAhead | SoftAhead




text \<open>Integer division of the source truncates towards zero.\<close>

definition cdiv :: "int \<Rightarrow> int \<Rightarrow> int" where
  "cdiv a b = sgn a * sgn b * (\<bar>a\<bar> div \<bar>b\<bar>)"

text \<open>
  The state of a reader.  Pointers into the buffer (\<open>mpInp\<close>, \<open>mpRed\<close>) are offsets from
  \<open>mpBuf\<close>, so that \<open>mpBuf\<close> is 0 and \<open>mpMax\<close> is \<open>mlBufSze\<close>; the null pointer is -1.
  \<open>bufDta\<close> is the content of the buffer.  The underlying stream of the subclass is its
  content \<open>filDta\<close>, its position \<open>filPos\<close> and whether it can seek (\<open>filSeek\<close>).
\<close>

record JFileAhead =
  mbSeq :: bool
  miRedSze :: int
  mpRed :: int
  mzPosInp :: int
  mzPosRed :: int
  mzPosEof :: int
  mlFabSek :: int
  mlBufSze :: int
  miBlkSze :: int
  miBufUsd :: int
  bufDta :: "jchar list"
  mpInp :: int
  mzPosBse :: int
  filDta :: "jchar list"
  filPos :: int
  filSeek :: bool






definition getBufPos :: "JFileAhead \<Rightarrow> int" where
  "getBufPos s = mzPosInp s - miBufUsd s"

definition set_lookahead_base :: "JFileAhead \<Rightarrow> int \<Rightarrow> JFileAhead" where
  "set_lookahead_base s azBse = s\<lparr>mzPosBse := azBse\<rparr>"








text \<open>
  \<open>getbuf\<close> yields the buffer address of \<open>azPos\<close> (\<open>None\<close> for null) and \<open>azLen\<close>, the
  number of bytes from there on, or a negative code.
\<close>

definition getbuf_addr :: "JFileAhead \<Rightarrow> int \<Rightarrow> int option \<times> int" where
  "getbuf_addr s azPos =
     (let azLen = mzPosInp s - azPos
      in if azLen \<le> mpInp s then (Some (mpInp s - azLen), azLen)
         else (Some (mpInp s + mlBufSze s - azLen),
               mlBufSze s - (mpInp s + mlBufSze s - azLen)))"












section \<open>Byte-level verification of a match (JMatchTable::check)\<close>

definition EQLSZE :: int where "EQLSZE = 8"
definition EQLMIN :: int where "EQLMIN = 4"
definition EQLMAX :: int where "EQLMAX = 256"
definition MAXDST :: int where "MAXDST = 2 * 1024 * 1024"
definition MINDST :: int where "MINDST = 1024"
definition FZY :: int where "FZY = 0"
definition CMPINV :: int where "CMPINV = -1"
definition CMPSKP :: int where "CMPSKP = -2"
definition CMPEOB :: int where "CMPEOB = -3"

text \<open>
  The match table reads its two files through the interface of \<open>JFile\<close>, whose
  \<open>get(pos, mode)\<close> returns a byte or a negative code and may change the reader.  A reader
  is modelled by its state and its \<open>get\<close>: a function from state, position and mode to
  the result and the new state.
\<close>

type_synonym 'r getter = "'r \<Rightarrow> int \<Rightarrow> eAhead \<Rightarrow> int \<times> 'r"

text \<open>The variables of the loop of \<open>check\<close>.\<close>

record ('o, 'n) chk =
  filOrg :: 'o
  filNew :: 'n
  azPosOrg :: int
  azPosNew :: int
  aiLen :: int
  lcOrg :: int
  lcNew :: int
  liEql :: int

function check_loop ::
  "'o getter \<Rightarrow> 'n getter \<Rightarrow> int \<Rightarrow> eAhead \<Rightarrow> ('o, 'n) chk \<Rightarrow> ('o, 'n) chk" where
  "check_loop getOrg getNew aiGld aiSft c =
     (if liEql c < EQLMAX then
        (let (vo, fo) = getOrg (filOrg c) (azPosOrg c) aiSft;
             c1 = c\<lparr>filOrg := fo, lcOrg := vo\<rparr>
         in if vo < 0 then c1
            else
              (let (vn, fn) = getNew (filNew c1) (azPosNew c1) aiSft;
                   c2 = c1\<lparr>filNew := fn, lcNew := vn\<rparr>
               in if vn < 0 then c2
                  else if vo = vn
                  then check_loop getOrg getNew aiGld aiSft
                         (c2\<lparr>azPosOrg := azPosOrg c2 + 1, azPosNew := azPosNew c2 + 1,
                             liEql := liEql c2 + 1, aiLen := aiLen c2 - 1\<rparr>)
                  else if liEql c2 \<ge> EQLSZE then c2
                  else if aiLen c2 \<le> 0 then c2
                  else check_loop getOrg getNew aiGld aiSft
                         (c2\<lparr>azPosNew := azPosNew c2 + 1,
                             azPosOrg := (if aiGld \<noteq> 0 then azPosOrg c2 - liEql c2
                                          else azPosOrg c2 + 1),
                             liEql := 0, aiLen := aiLen c2 - 1\<rparr>)))
      else c)"
  by pat_completeness auto
termination
proof (relation "measures [\<lambda>(getOrg, getNew, aiGld, aiSft, c). nat (aiLen c),
                           \<lambda>(getOrg, getNew, aiGld, aiSft, c). nat (EQLMAX - liEql c)]",
       goal_cases)
  case 1
  show ?case by simp
next
  case (2 getOrg getNew aiGld aiSft c)
  then show ?case by auto
next
  case (3 getOrg getNew aiGld aiSft c)
  then show ?case by auto
qed

declare check_loop.simps [simp del]

text \<open>
  \<open>check\<close> takes both positions by reference; the model returns the result, the two
  positions and the two readers.
\<close>

definition check ::
  "'o getter \<Rightarrow> 'n getter \<Rightarrow> 'o \<Rightarrow> 'n \<Rightarrow> int \<Rightarrow> int \<Rightarrow> int \<Rightarrow> int \<Rightarrow> eAhead
     \<Rightarrow> int \<times> int \<times> int \<times> 'o \<times> 'n" where
  "check getOrg getNew fo fn posOrg posNew len aiGld aiSft =
     (let c = check_loop getOrg getNew aiGld aiSft
                \<lparr>filOrg = fo, filNew = fn, azPosOrg = posOrg, azPosNew = posNew,
                 aiLen = len, lcOrg = 0, lcNew = 0, liEql = 0\<rparr>
      in if liEql c > EQLMIN
         then (liEql c, azPosOrg c - liEql c, azPosNew c - liEql c, filOrg c, filNew c)
         else if lcOrg c = EOB \<or> lcNew c = EOB
         then (CMPEOB, azPosOrg c, azPosNew c, filOrg c, filNew c)
         else (0, azPosOrg c, azPosNew c, filOrg c, filNew c))"

text \<open>
  A reader whose answers depend on the position and the mode only, given as a function,
  and the reader of a byte sequence held in memory, which returns \<open>EOF\<close> outside of it.
\<close>

definition fun_get :: "(int \<Rightarrow> eAhead \<Rightarrow> int) \<Rightarrow> unit getter" where
  "fun_get f = (\<lambda>r pos m. (f pos m, r))"

definition mem_byte :: "jchar list \<Rightarrow> int \<Rightarrow> eAhead \<Rightarrow> int" where
  "mem_byte dta pos m = (if 0 \<le> pos \<and> pos < int (length dta) then uint (dta ! nat pos) else EOF)"

text \<open>
  \<open>src[posOrg..posOrg+k] == dst[posNew..posNew+k]\<close>: the \<open>k\<close> positions from \<open>posOrg\<close> on in
  the source and from \<open>posNew\<close> on in the destination hold bytes, and the same ones.
\<close>

definition matched_run ::
  "(int \<Rightarrow> eAhead \<Rightarrow> int) \<Rightarrow> (int \<Rightarrow> eAhead \<Rightarrow> int) \<Rightarrow> eAhead \<Rightarrow> int \<Rightarrow> int \<Rightarrow> int \<Rightarrow> bool" where
  "matched_run src dst m posOrg posNew k =
     list_all (\<lambda>i. src (posOrg + int i) m = dst (posNew + int i) m \<and> 0 \<le> src (posOrg + int i) m)
       [0..<nat k]"

text \<open>
  The invariant of the loop of \<open>check\<close> over two such readers, started at destination
  position \<open>p0\<close> with budget \<open>l0\<close>: the last \<open>liEql\<close> bytes read on both sides are an equal
  run, and that run starts at most \<open>max 0 l0\<close> bytes after \<open>p0\<close>.
\<close>

definition chk_inv ::
  "(int \<Rightarrow> eAhead \<Rightarrow> int) \<Rightarrow> (int \<Rightarrow> eAhead \<Rightarrow> int) \<Rightarrow> eAhead \<Rightarrow> int \<Rightarrow> int
     \<Rightarrow> (unit, unit) chk \<Rightarrow> bool" where
  "chk_inv src dst m p0 l0 c =
     (0 \<le> liEql c \<and> liEql c \<le> EQLMAX
      \<and> matched_run src dst m (azPosOrg c - liEql c) (azPosNew c - liEql c) (liEql c)
      \<and> p0 \<le> azPosNew c - liEql c \<and> azPosNew c - liEql c - p0 \<le> max 0 l0
      \<and> azPosNew c - p0 = l0 - aiLen c)"

text \<open>
  The reason for which the loop has stopped in state \<open>c\<close>: the cap \<open>EQLMAX\<close>, a negative
  result of the source reader, a negative result of the destination reader, or a
  mismatch after at least \<open>EQLSZE\<close> equal bytes or with the budget used up.
\<close>

definition chk_stopped ::
  "(int \<Rightarrow> eAhead \<Rightarrow> int) \<Rightarrow> (int \<Rightarrow> eAhead \<Rightarrow> int) \<Rightarrow> eAhead \<Rightarrow> (unit, unit) chk \<Rightarrow> bool" where
  "chk_stopped src dst m c =
     ((liEql c \<ge> EQLMAX \<and> 0 \<le> lcOrg c \<and> 0 \<le> lcNew c)
      \<or> (lcOrg c = src (azPosOrg c) m \<and> lcOrg c < 0 \<and> 0 \<le> lcNew c)
      \<or> (lcOrg c = src (azPosOrg c) m \<and> 0 \<le> lcOrg c \<and> lcNew c = dst (azPosNew c) m
         \<and> (lcNew c < 0 \<or> (lcOrg c \<noteq> lcNew c \<and> (liEql c \<ge> EQLSZE \<or> aiLen c \<le> 0)))))"

text \<open>The equal-counter stays between 0 and \<open>EQLMAX\<close>, whatever the readers are.\<close>

definition chk_range :: "('o, 'n) chk \<Rightarrow> bool" where
  "chk_range c = (0 \<le> liEql c \<and> liEql c \<le> EQLMAX)"

text \<open>
  The source position that faces the destination position \<open>posNew + d\<close> when the scan has
  skipped \<open>d\<close> bytes without an equal pair: a gliding scan (\<open>aiGld \<noteq> 0\<close>) keeps the source
  position, a colliding one advances it with the destination position.
\<close>

definition run_org :: "int \<Rightarrow> int \<Rightarrow> int \<Rightarrow> int" where
  "run_org aiGld posOrg d = (if aiGld \<noteq> 0 then posOrg else posOrg + d)"

text \<open>
  The \<open>d\<close> pairs the scan passes before it reaches a run: both reads return a byte, and in
  a gliding scan the source byte at \<open>posOrg\<close> differs from each of the \<open>d\<close> destination bytes.
\<close>

definition skipped_run ::
  "(int \<Rightarrow> eAhead \<Rightarrow> int) \<Rightarrow> (int \<Rightarrow> eAhead \<Rightarrow> int) \<Rightarrow> eAhead \<Rightarrow> int \<Rightarrow> int \<Rightarrow> int \<Rightarrow> int \<Rightarrow> bool" where
  "skipped_run src dst m aiGld posOrg posNew d =
     list_all (\<lambda>t. 0 \<le> src (run_org aiGld posOrg (int t)) m
                  \<and> 0 \<le> dst (posNew + int t) m
                  \<and> (aiGld \<noteq> 0 \<longrightarrow> src posOrg m \<noteq> dst (posNew + int t) m))
       [0..<nat d]"

text \<open>
  The pair after a run stops the scan although fewer than \<open>EQLSZE\<close> bytes were equal: one
  of the two reads returns a negative code, or the bytes differ and the budget is used up.
\<close>

definition run_ends ::
  "(int \<Rightarrow> eAhead \<Rightarrow> int) \<Rightarrow> (int \<Rightarrow> eAhead \<Rightarrow> int) \<Rightarrow> eAhead \<Rightarrow> int \<Rightarrow> int \<Rightarrow> int \<Rightarrow> bool" where
  "run_ends src dst m posOrg posNew len =
     (src posOrg m < 0 \<or> dst posNew m < 0 \<or> (src posOrg m \<noteq> dst posNew m \<and> len \<le> 0))"

text \<open>
  What lies ahead of the loop in state \<open>c\<close>: \<open>EQLSZE\<close> bytes are equal already, or after
  \<open>d\<close> more skipped pairs, within the budget, comes a run of \<open>r\<close> equal pairs that, with the
  bytes already counted when \<open>d = 0\<close>, has at least \<open>K\<close> bytes and either reaches \<open>EQLSZE\<close> or
  is followed by a pair that stops the scan.
\<close>

definition chk_ahead ::
  "(int \<Rightarrow> eAhead \<Rightarrow> int) \<Rightarrow> (int \<Rightarrow> eAhead \<Rightarrow> int) \<Rightarrow> eAhead \<Rightarrow> int \<Rightarrow> int
     \<Rightarrow> (unit, unit) chk \<Rightarrow> int \<Rightarrow> int \<Rightarrow> bool" where
  "chk_ahead src dst m aiGld K c d r =
     (0 \<le> liEql c \<and> 0 \<le> d \<and> 0 \<le> r \<and>
      (EQLSZE \<le> liEql c \<or>
       (skipped_run src dst m aiGld (azPosOrg c) (azPosNew c) d \<and>
        (0 < d \<longrightarrow> d \<le> aiLen c \<and> (aiGld \<noteq> 0 \<longrightarrow> liEql c = 0)) \<and>
        matched_run src dst m (run_org aiGld (azPosOrg c) d) (azPosNew c + d) r \<and>
        K \<le> (if d = 0 then liEql c else 0) + r \<and>
        (EQLSZE \<le> (if d = 0 then liEql c else 0) + r \<or>
         run_ends src dst m (run_org aiGld (azPosOrg c) d + r)
           (azPosNew c + d + r) (aiLen c - (d + r))))))"

definition chk_ahead_ex ::
  "(int \<Rightarrow> eAhead \<Rightarrow> int) \<Rightarrow> (int \<Rightarrow> eAhead \<Rightarrow> int) \<Rightarrow> eAhead \<Rightarrow> int \<Rightarrow> int
     \<Rightarrow> (unit, unit) chk \<Rightarrow> bool" where
  "chk_ahead_ex src dst m aiGld K c = (\<exists>d r. chk_ahead src dst m aiGld K c d r)"

text \<open>The loop has counted at least \<open>min K EQLSZE\<close> equal bytes.\<close>

definition chk_found :: "int \<Rightarrow> ('o, 'n) chk \<Rightarrow> bool" where
  "chk_found K c = (min K EQLSZE \<le> liEql c)"

text \<open>
  The source position during the loop: a gliding scan holds it \<open>liEql\<close> bytes after
  \<open>posOrg\<close>, a colliding one keeps its distance to the destination position.
\<close>

definition chk_pos :: "int \<Rightarrow> int \<Rightarrow> int \<Rightarrow> ('o, 'n) chk \<Rightarrow> bool" where
  "chk_pos aiGld posOrg posNew c =
     (if aiGld \<noteq> 0 then azPosOrg c - liEql c = posOrg
      else azPosOrg c - azPosNew c = posOrg - posNew)"

section \<open>The match table (JMatchTable)\<close>

definition MAXGLD :: int where "MAXGLD = 128"

text \<open>The remainder of the source's integer division.\<close>

definition cmod :: "int \<Rightarrow> int \<Rightarrow> int" where
  "cmod a b = a - cdiv a b * b"

subsection \<open>getLowerPrime (JDefs.cpp)\<close>

function isPrime_loop :: "int \<Rightarrow> int \<Rightarrow> bool" where
  "isPrime_loop number i =
     (if cdiv number i \<ge> i
      then (if cmod number i = 0 then False else isPrime_loop number (i + 2))
      else True)"
  by pat_completeness auto

termination
proof (relation "measure (\<lambda>(number, i). nat (max number 1 + 2 - i))", goal_cases)
  case 1
  show ?case by simp
next
  case (2 number i)
  have "i \<le> max number 1 + 1"
  proof (cases "0 < i")
    case True
    have n: "0 < number"
    proof (rule ccontr)
      assume "\<not> 0 < number"
      hence "cdiv number i \<le> 0" using True
        by (auto simp: cdiv_def sgn_if div_int_pos_iff)
      with True 2(1) show False by simp
    qed
    with True 2(1) have "i \<le> number div i" by (simp add: cdiv_def)
    also have "number div i \<le> number" using n True
      by (metis div_by_1 int_one_le_iff_zero_less order.refl zdiv_mono2 order_less_imp_le)
    finally show ?thesis by simp
  next
    case False
    thus ?thesis by simp
  qed
  thus ?case by simp
qed

declare isPrime_loop.simps [simp del]

definition isPrime :: "int \<Rightarrow> bool" where
  "isPrime number =
     (if number < 2 then False
      else if number = 2 then True
      else if cmod number 2 = 0 then False
      else isPrime_loop number 3)"

function getLowerPrime_loop :: "int \<Rightarrow> int" where
  "getLowerPrime_loop aiNum =
     (if aiNum > 0
      then (if isPrime aiNum then aiNum else getLowerPrime_loop (aiNum - 1))
      else aiNum)"
  by pat_completeness auto

termination
  by (relation "measure nat") simp_all

declare getLowerPrime_loop.simps [simp del]

definition getLowerPrime :: "int \<Rightarrow> int" where
  "getLowerPrime aiNum =
     (if aiNum = 1024 then 1021
      else if aiNum = 32 * 1024 * 1024 then 33554393
      else if aiNum = 16 * 1024 * 1024 then 16777213
      else if aiNum = 8 * 1024 * 1024 then 8388593
      else if aiNum = 128 * 1024 * 1024 then 134217689
      else if aiNum = 512 * 1024 * 1024 then 536870909
      else getLowerPrime_loop aiNum)"

subsection \<open>The table\<close>

datatype eMatchReturn = Error | Full | Enlarged | Invalid | Good | Best | Valid

text \<open>
  A match record.  A pointer to a record is its index in the pool \<open>msMch\<close>; the null
  pointer is \<open>None\<close>.
\<close>

record rMch =
  ipNxt :: "nat option"
  ipCol :: "nat option"
  ipGld :: "nat option"
  iiCnt :: int
  iiGld :: int
  izBeg :: int
  izNew :: int
  izOrg :: int
  izDlt :: int
  izTst :: int
  iiCmp :: int

text \<open>
  The match table, over the states \<open>mpFilOrg\<close> and \<open>mpFilNew\<close> of its two readers.  The
  reliability of the index (\<open>mpHsh->get_reliability()\<close>) is handed to \<open>cleanup\<close> by its
  caller.
\<close>

record ('o, 'n) JMatchTable =
  miMchSze :: int
  miMchFre :: int
  miMchPme :: int
  msMch :: "rMch list"
  mpCol :: "nat option list"
  mpGld :: "nat option list"
  mpOld :: "nat option"
  mpNew :: "nat option"
  mpLst :: "nat option"
  mpBst :: "nat option"
  mzBstOrg :: int
  mzBstNew :: int
  miBstCmp :: int
  mzOld :: int
  mpFilOrg :: 'o
  mpFilNew :: 'n
  mbCmpAll :: bool
  miAhdMax :: int
  miRlb :: int
  miHshRpr :: int

text \<open>
  The constructor.  The pool comes from \<open>malloc\<close> with arbitrary content \<open>pool\<close> (of
  \<open>miMchSze\<close> records), the two hash arrays from \<open>calloc\<close>; \<open>miHshRpr\<close> is not initialised.
\<close>

definition JMatchTable_new ::
  "rMch list \<Rightarrow> int \<Rightarrow> 'o \<Rightarrow> 'n \<Rightarrow> int \<Rightarrow> bool \<Rightarrow> int \<Rightarrow> ('o, 'n) JMatchTable" where
  "JMatchTable_new pool rpr fo fn aiMchSze abCmpAll aiAhdMax =
     \<lparr>miMchSze = (if aiMchSze < 13 then 13 else aiMchSze),
      miMchFre = (if aiMchSze < 13 then 13 else aiMchSze),
      miMchPme = getLowerPrime (aiMchSze * 2), msMch = pool,
      mpCol = replicate (nat (getLowerPrime (aiMchSze * 2))) None,
      mpGld = replicate (nat (getLowerPrime (aiMchSze * 2))) None,
      mpOld = None, mpNew = None, mpLst = None, mpBst = None,
      mzBstOrg = 0, mzBstNew = 0, miBstCmp = 0, mzOld = 0,
      mpFilOrg = fo, mpFilNew = fn, mbCmpAll = abCmpAll, miAhdMax = aiAhdMax,
      miRlb = 0, miHshRpr = rpr\<rparr>"

text \<open>Reading and updating the record behind a pointer.\<close>

definition mch :: "('o, 'n) JMatchTable \<Rightarrow> nat \<Rightarrow> rMch" where
  "mch s p = msMch s ! p"

definition upd :: "('o, 'n) JMatchTable \<Rightarrow> nat \<Rightarrow> (rMch \<Rightarrow> rMch) \<Rightarrow> ('o, 'n) JMatchTable" where
  "upd s p f = s\<lparr>msMch := (msMch s)[p := f (msMch s ! p)]\<rparr>"

text \<open>
  The indices into the two hash arrays, \<open>abs(lzDlt) % miMchPme\<close> and
  \<open>azFndOrgAdd % miMchPme\<close>.  Positions in the files are not negative; for them the
  conversion to an array index is the identity.
\<close>

definition idxCol :: "('o, 'n) JMatchTable \<Rightarrow> int \<Rightarrow> nat" where
  "idxCol s lzDlt = nat (cmod \<bar>lzDlt\<bar> (miMchPme s))"

definition idxGld :: "('o, 'n) JMatchTable \<Rightarrow> int \<Rightarrow> nat" where
  "idxGld s azOrg = nat (cmod azOrg (miMchPme s))"

subsection \<open>calcPosOrg, isOld2Skip, isOld2Reuse\<close>

text \<open>\<open>calcPosOrg\<close> yields whether the offsets glide, \<open>azTstOrg\<close> and \<open>azTstNew\<close>.\<close>

definition calcPosOrg :: "rMch \<Rightarrow> int \<Rightarrow> bool \<times> int \<times> int" where
  "calcPosOrg m azTstNew =
     (if iiGld m > 0 \<and> azTstNew \<ge> izBeg m then (True, izOrg m, azTstNew)
      else if azTstNew + izDlt m \<ge> 0 then (False, azTstNew + izDlt m, azTstNew)
      else (False, 0, - izDlt m))"

definition isOld2Skip :: "rMch \<Rightarrow> int \<Rightarrow> bool" where
  "isOld2Skip m azRedNew =
     (if iiCmp m = CMPSKP then True
      else if iiCmp m = CMPINV \<or> iiCmp m = 0 then izNew m + MAXDST \<le> azRedNew
      else izNew m + MAXDST \<le> azRedNew \<and> izTst m + \<bar>iiCmp m\<bar> < azRedNew)"

definition isOld2Reuse :: "('o, 'n) JMatchTable \<Rightarrow> nat \<Rightarrow> bool" where
  "isOld2Reuse s p =
     (let m = mch s p
      in if iiCmp m = CMPSKP then True
         else if iiCmp m = CMPINV then True
         else if iiCmp m = CMPEOB then Some p \<noteq> mpBst s \<and> izNew m < mzOld s
         else if iiCmp m = 0 then izNew m < izTst m \<or> izNew m < mzOld s
         else Some p \<noteq> mpBst s \<and> izNew m < mzOld s \<and> izTst m + \<bar>iiCmp m\<bar> < mzOld s)"

subsection \<open>isBest and isGoodOrBest\<close>

text \<open>
  The estimate that \<open>isBest\<close> makes for a match whose compare ran into the end of the
  buffer: the length, \<open>lzTstOrg\<close> and \<open>lzTstNew\<close>.  There is no result when \<open>miRlb / 8\<close>, by
  which an aging match divides, is zero.
\<close>

definition eobClamp :: "int \<Rightarrow> int" where
  "eobClamp c = (if c < 1 then 1 else 1 + cdiv (min EQLMAX c) 2)"

definition eobEstimate ::
  "('o, 'n) JMatchTable \<Rightarrow> rMch \<Rightarrow> int \<Rightarrow> int \<Rightarrow> (int \<times> int \<times> int) option" where
  "eobEstimate s m lzTstOrg lzTstNew =
     (let liCurCnt = (if iiGld m > 0 then 1 + cdiv (iiCnt m) 2 else iiCnt m)
      in if lzTstNew \<le> izBeg m then Some (eobClamp liCurCnt, izOrg m, izBeg m)
         else if lzTstNew \<le> izNew m + miRlb s
         then (let lzDst = 1 + miRlb s - min (miRlb s) (iiCnt m)
               in Some (eobClamp liCurCnt, lzTstOrg + lzDst, lzTstNew + lzDst))
         else if cdiv (miRlb s) 8 = 0 then None
         else (let c1 = liCurCnt - 1 - cdiv (lzTstNew - izNew m) (cdiv (miRlb s) 8);
                   lzDst = liCurCnt - c1
               in Some (eobClamp c1, lzTstOrg + lzDst, lzTstNew + lzDst)))"

text \<open>Whether the candidate \<open>p\<close> with test position \<open>lzTstNew\<close> and length \<open>liCurCmp\<close> is elected.\<close>

definition elect :: "('o, 'n) JMatchTable \<Rightarrow> nat \<Rightarrow> int \<Rightarrow> int \<Rightarrow> int \<Rightarrow> bool" where
  "elect s p lzTstNew liCurCmp liCurCnt =
     (case mpBst s of
        None \<Rightarrow> True
      | Some b \<Rightarrow>
          if liCurCmp < 2 \<and> miBstCmp s > 4 then False
          else if miBstCmp s < 2 \<and> liCurCmp > 4 then True
          else if lzTstNew + FZY < mzBstNew s then True
          else if lzTstNew \<le> mzBstNew s + FZY then
            (if lzTstNew - liCurCmp < mzBstNew s - miBstCmp s then True
             else if lzTstNew - liCurCmp = mzBstNew s - miBstCmp s then
               (let cnt = (if liCurCnt < 0
                           then (if iiGld (mch s p) > 0 then cdiv (iiCnt (mch s p)) 2
                                 else iiCnt (mch s p))
                           else liCurCnt);
                    liBstCnt = (if iiGld (mch s b) > 0 then cdiv (iiCnt (mch s b)) 2
                                else iiCnt (mch s b))
                in cnt > liBstCnt)
             else False)
          else False)"

text \<open>The election of \<open>isBest\<close>, with the final values of its local variables.\<close>

definition isBest_elect ::
  "('o, 'n) JMatchTable \<Rightarrow> nat \<Rightarrow> int \<Rightarrow> int \<Rightarrow> int \<Rightarrow> int \<Rightarrow> int
     \<Rightarrow> bool \<times> ('o, 'n) JMatchTable" where
  "isBest_elect s p azRedNew lzTstOrg lzTstNew liCurCmp liCurCnt =
     (let s2 = (if liCurCmp > 0
                then (let s1 = (if elect s p lzTstNew liCurCmp liCurCnt
                                then s\<lparr>mpBst := Some p\<rparr> else s)
                      in if mpBst s1 = Some p
                         then (let lzOld = izTst (mch s1 p) + min 0 (iiCmp (mch s1 p)) - miRlb s1
                               in s1\<lparr>mzBstNew := lzTstNew, mzBstOrg := lzTstOrg,
                                      miBstCmp := liCurCmp,
                                      mzOld := (if lzOld < azRedNew then azRedNew else lzOld)\<rparr>)
                         else s1)
                else s)
      in (mpBst s2 = Some p, s2))"

definition isBest ::
  "('o, 'n) JMatchTable \<Rightarrow> nat \<Rightarrow> int \<Rightarrow> int \<Rightarrow> int \<Rightarrow> int
     \<Rightarrow> (bool \<times> ('o, 'n) JMatchTable) option" where
  "isBest s p azRedNew lzTstOrg lzTstNew liCurCmp =
     (if liCurCmp \<le> CMPEOB
      then (case eobEstimate s (mch s p) lzTstOrg lzTstNew of
              None \<Rightarrow> None
            | Some (c, tstOrg, tstNew) \<Rightarrow>
                Some (isBest_elect
                        (if c > 3 then upd s p (\<lambda>r. r\<lparr>iiCmp := - c\<rparr>) else s)
                        p azRedNew tstOrg tstNew c
                        (if iiGld (mch s p) > 0 then 1 + cdiv (iiCnt (mch s p)) 2
                         else iiCnt (mch s p))))
      else Some (isBest_elect s p azRedNew lzTstOrg lzTstNew liCurCmp (-1)))"

text \<open>The end of \<open>isGoodOrBest\<close>, after the three ways to get at a compare result.\<close>

definition isGoodOrBest_end ::
  "('o, 'n) JMatchTable \<Rightarrow> nat \<Rightarrow> int \<Rightarrow> int \<Rightarrow> int \<Rightarrow> int
     \<Rightarrow> (eMatchReturn \<times> ('o, 'n) JMatchTable) option" where
  "isGoodOrBest_end s p azRedNew liCurCmp0 lzTstOrg lzTstNew =
     (let m = mch s p;
          liCurCmp = (if iiCmp m \<ge> EQLMAX \<and> izNew m > lzTstNew + liCurCmp0
                      then liCurCmp0 + (izNew m - lzTstNew) else liCurCmp0)
      in case isBest s p azRedNew lzTstOrg lzTstNew liCurCmp of
           None \<Rightarrow> None
         | Some (b, s1) \<Rightarrow>
             Some (if liCurCmp = 0 then Invalid
                   else if lzTstNew \<noteq> azRedNew then Valid
                   else if liCurCmp \<ge> EQLMAX then Best
                   else if liCurCmp \<ge> EQLSZE then Good
                   else Valid, s1))"

definition isGoodOrBest ::
  "'o getter \<Rightarrow> 'n getter \<Rightarrow> ('o, 'n) JMatchTable \<Rightarrow> int \<Rightarrow> nat
     \<Rightarrow> (eMatchReturn \<times> ('o, 'n) JMatchTable) option" where
  "isGoodOrBest getOrg getNew s azRedNew p =
     (let m = mch s p;
          (lbGld, lzTstOrg, lzTstNew) = calcPosOrg m azRedNew
      in if lzTstNew \<le> izTst m
         then isGoodOrBest_end s p azRedNew
                (if iiCmp m = CMPSKP \<or> iiCmp m = CMPINV then 0 else iiCmp m)
                (if lbGld then izOrg m else lzTstOrg + (izTst m - lzTstNew))
                (izTst m)
         else if \<not> lbGld \<and> iiCmp m > 0 \<and> izTst m - lzTstNew + iiCmp m > EQLMIN
         then isGoodOrBest_end s p azRedNew (izTst m - lzTstNew + iiCmp m) lzTstOrg lzTstNew
         else
           (let lzDst0 = izBeg m - lzTstNew;
                lzDst = (if lzDst0 < MINDST then MINDST
                         else if lzDst0 > MAXDST then MAXDST else lzDst0);
                (liCurCmp, tstOrg, tstNew, fo, fn) =
                   check getOrg getNew (mpFilOrg s) (mpFilNew s) lzTstOrg lzTstNew lzDst
                     (if lbGld then iiGld m else 0)
                     (if mbCmpAll s then HardAhead else SoftAhead);
                s1 = upd (s\<lparr>mpFilOrg := fo, mpFilNew := fn\<rparr>) p
                       (\<lambda>r. r\<lparr>izTst := tstNew,
                               iiCmp := (if iiCmp r = CMPINV \<and> liCurCmp \<le> 0 then iiCmp r
                                         else liCurCmp)\<rparr>)
            in isGoodOrBest_end s1 p azRedNew liCurCmp tstOrg tstNew))"

subsection \<open>The lists of old and new records\<close>

definition addNew :: "('o, 'n) JMatchTable \<Rightarrow> nat \<Rightarrow> ('o, 'n) JMatchTable" where
  "addNew s p =
     (case mpNew s of
        None \<Rightarrow> s\<lparr>mpNew := Some p, mpLst := Some p\<rparr>
      | Some h \<Rightarrow> (upd s (the (mpLst s)) (\<lambda>r. r\<lparr>ipNxt := Some p\<rparr>))\<lparr>mpLst := Some p\<rparr>)"

text \<open>Joining the new list onto the old one, as \<open>cleanup\<close> and \<open>getbest\<close> do.\<close>

definition joinLists :: "('o, 'n) JMatchTable \<Rightarrow> ('o, 'n) JMatchTable" where
  "joinLists s =
     (case mpNew s of
        None \<Rightarrow> s
      | Some h \<Rightarrow> (upd s (the (mpLst s)) (\<lambda>r. r\<lparr>ipNxt := mpOld s\<rparr>))
                    \<lparr>mpOld := mpNew s, mpNew := None, mpLst := None\<rparr>)"

text \<open>The first loop of \<open>nextold\<close>: records at the head of the old list that are not old.\<close>

partial_function (option) nextold_old :: "('o, 'n) JMatchTable \<Rightarrow> ('o, 'n) JMatchTable option" where
  "nextold_old s =
     (case mpOld s of
        None \<Rightarrow> Some s
      | Some p \<Rightarrow>
          if isOld2Reuse s p then Some s
          else nextold_old (addNew (s\<lparr>mpOld := ipNxt (mch s p)\<rparr>) p))"

text \<open>The second loop of \<open>nextold\<close>: invalid records at the head of the new list.\<close>

partial_function (option) nextold_new ::
  "('o, 'n) JMatchTable \<Rightarrow> nat option \<Rightarrow> ('o, 'n) JMatchTable option" where
  "nextold_new s lpCur =
     (case lpCur of
        None \<Rightarrow> Some s
      | Some p \<Rightarrow>
          if iiCmp (mch s p) \<noteq> CMPINV then Some s
          else if iiCnt (mch s p) > 1 \<and> izNew (mch s p) > izTst (mch s p)
          then nextold_new
                 (addNew (upd (s\<lparr>mpNew := ipNxt (mch s p)\<rparr>) p (\<lambda>r. r\<lparr>iiCmp := 0\<rparr>)) p)
                 (ipNxt (mch (addNew (upd (s\<lparr>mpNew := ipNxt (mch s p)\<rparr>) p
                                        (\<lambda>r. r\<lparr>iiCmp := 0\<rparr>)) p) p))
          else Some ((upd (s\<lparr>mpNew := ipNxt (mch s p)\<rparr>) p (\<lambda>r. r\<lparr>ipNxt := mpOld s\<rparr>))
                       \<lparr>mpOld := Some p\<rparr>))"

definition nextold :: "('o, 'n) JMatchTable \<Rightarrow> (bool \<times> ('o, 'n) JMatchTable) option" where
  "nextold s =
     do {
       s1 \<leftarrow> nextold_old s;
       s2 \<leftarrow> (if mpOld s1 = None \<and> mpNew s1 \<noteq> None
               then nextold_new (upd s1 (the (mpLst s1)) (\<lambda>r. r\<lparr>ipNxt := None\<rparr>)) (mpNew s1)
               else Some s1);
       Some (mpOld s2 \<noteq> None, s2)
     }"

subsection \<open>The two hash tables of records\<close>

partial_function (option) delGld_loop ::
  "('o, 'n) JMatchTable \<Rightarrow> nat \<Rightarrow> nat option \<Rightarrow> ('o, 'n) JMatchTable option" where
  "delGld_loop s apGld lpGld =
     (case lpGld of
        None \<Rightarrow> Some s
      | Some q \<Rightarrow>
          if ipGld (mch s q) = Some apGld
          then Some (upd s q (\<lambda>r. r\<lparr>ipGld := ipGld (mch s apGld)\<rparr>))
          else delGld_loop s apGld (ipGld (mch s q)))"

definition delGld :: "('o, 'n) JMatchTable \<Rightarrow> nat \<Rightarrow> ('o, 'n) JMatchTable option" where
  "delGld s apGld =
     (let liIdx = idxGld s (izOrg (mch s apGld))
      in if mpGld s ! liIdx = Some apGld
         then Some (s\<lparr>mpGld := (mpGld s)[liIdx := ipGld (mch s apGld)]\<rparr>)
         else delGld_loop s apGld (mpGld s ! liIdx))"

partial_function (option) delCol_loop ::
  "('o, 'n) JMatchTable \<Rightarrow> nat \<Rightarrow> nat option \<Rightarrow> ('o, 'n) JMatchTable option" where
  "delCol_loop s apCol lpCol =
     (case lpCol of
        None \<Rightarrow> Some s
      | Some q \<Rightarrow>
          if ipCol (mch s q) = Some apCol
          then Some (upd s q (\<lambda>r. r\<lparr>ipCol := ipCol (mch s apCol)\<rparr>))
          else delCol_loop s apCol (ipCol (mch s q)))"

definition delCol :: "('o, 'n) JMatchTable \<Rightarrow> nat \<Rightarrow> ('o, 'n) JMatchTable option" where
  "delCol s apCol =
     (let liIdx = idxCol s (izDlt (mch s apCol))
      in if mpCol s ! liIdx = Some apCol
         then Some (s\<lparr>mpCol := (mpCol s)[liIdx := ipCol (mch s apCol)]\<rparr>)
         else delCol_loop s apCol (mpCol s ! liIdx))"

text \<open>The searches of \<open>add\<close> along a colliding and along a gliding chain.\<close>

partial_function (option) findCol ::
  "('o, 'n) JMatchTable \<Rightarrow> int \<Rightarrow> nat option \<Rightarrow> nat option option" where
  "findCol s lzDlt lpCur =
     (case lpCur of
        None \<Rightarrow> Some None
      | Some q \<Rightarrow> if izDlt (mch s q) = lzDlt then Some (Some q)
                  else findCol s lzDlt (ipCol (mch s q)))"

partial_function (option) findGld ::
  "('o, 'n) JMatchTable \<Rightarrow> int \<Rightarrow> nat option \<Rightarrow> nat option option" where
  "findGld s azOrg lpCur =
     (case lpCur of
        None \<Rightarrow> Some None
      | Some q \<Rightarrow> if izOrg (mch s q) = azOrg then Some (Some q)
                  else findGld s azOrg (ipGld (mch s q)))"

declare findCol.simps [code] findGld.simps [code] delCol_loop.simps [code]
  delGld_loop.simps [code] nextold_old.simps [code] nextold_new.simps [code]

subsection \<open>add\<close>

definition INT_MAX :: int where "INT_MAX = 2 ^ 31 - 1"

text \<open>
  Joining a colliding or else a gliding match: the record found, if any.  There is no result
  when the counter \<open>iiCnt\<close> of the record overflows.
\<close>

definition add_join ::
  "'a::len itself \<Rightarrow> ('o, 'n) JMatchTable \<Rightarrow> int \<Rightarrow> int
     \<Rightarrow> (nat option \<times> ('o, 'n) JMatchTable) option" where
  "add_join t s azFndOrgAdd azFndNewAdd =
     do {
       c \<leftarrow> findCol s (azFndOrgAdd - azFndNewAdd)
              (mpCol s ! idxCol s (azFndOrgAdd - azFndNewAdd));
       case c of
         Some p \<Rightarrow>
           do {
             s1 \<leftarrow> (if iiCnt (mch s p) = 1 then delGld s p else Some s);
             if iiCnt (mch s1 p) = INT_MAX then None
             else Some (Some p,
                        upd s1 p (\<lambda>r. r\<lparr>iiCnt := iiCnt r + 1, izNew := azFndNewAdd\<rparr>))
           }
       | None \<Rightarrow>
           do {
             g \<leftarrow> findGld s azFndOrgAdd (mpGld s ! idxGld s azFndOrgAdd);
             case g of
               Some p \<Rightarrow>
                 do {
                   s1 \<leftarrow> (if iiCnt (mch s p) = 1 then delCol s p else Some s);
                   if iiCnt (mch s1 p) = INT_MAX then None
                   else Some (Some p,
                          upd s1 p (\<lambda>r. r\<lparr>iiCnt := iiCnt r + 1, izNew := azFndNewAdd,
                                           iiGld := (if iiGld r = 0
                                                     then (if azFndNewAdd \<le> izBeg r + SMPSZE t
                                                           then azFndNewAdd - izBeg r
                                                           else SMPSZE t)
                                                     else iiGld r)\<rparr>))
                 }
             | None \<Rightarrow> Some (None, s)
           }
     }"

text \<open>Filling out a record and putting it at the head of its two chains.\<close>

definition add_fill ::
  "('o, 'n) JMatchTable \<Rightarrow> nat \<Rightarrow> int \<Rightarrow> int \<Rightarrow> ('o, 'n) JMatchTable" where
  "add_fill s p azFndOrgAdd azFndNewAdd =
     (let liIdxDlt = idxCol s (azFndOrgAdd - azFndNewAdd);
          liIdxGld = idxGld s azFndOrgAdd;
          s1 = upd s p (\<lambda>r. r\<lparr>izOrg := azFndOrgAdd, izNew := azFndNewAdd,
                               izBeg := azFndNewAdd, izDlt := azFndOrgAdd - azFndNewAdd,
                               iiCnt := 1, iiGld := 0, iiCmp := 0, izTst := -1\<rparr>);
          s2 = (upd s1 p (\<lambda>r. r\<lparr>ipCol := mpCol s1 ! liIdxDlt\<rparr>))
                 \<lparr>mpCol := (mpCol s1)[liIdxDlt := Some p]\<rparr>
      in (upd s2 p (\<lambda>r. r\<lparr>ipGld := mpGld s2 ! liIdxGld\<rparr>))
           \<lparr>mpGld := (mpGld s2)[liIdxGld := Some p]\<rparr>)"

text \<open>Evaluating the record, putting a new one on the new list, and the return code.\<close>

definition add_eval ::
  "'o getter \<Rightarrow> 'n getter \<Rightarrow> ('o, 'n) JMatchTable \<Rightarrow> nat \<Rightarrow> int
     \<Rightarrow> (eMatchReturn \<times> ('o, 'n) JMatchTable) option" where
  "add_eval getOrg getNew s p azRedNew =
     do {
       (liRet, s3) \<leftarrow>
         (if iiCnt (mch s p) = 1 \<or> iiCmp (mch s p) = CMPSKP
          then do {
                 (r, s1) \<leftarrow> isGoodOrBest getOrg getNew
                              (if iiCmp (mch s p) = CMPSKP
                               then upd s p (\<lambda>m. m\<lparr>iiCmp := 0\<rparr>) else s)
                              azRedNew p;
                 if r = Invalid \<and> izTst (mch s1 p) \<ge> izNew (mch s1 p)
                 then (let s2 = upd (s1\<lparr>miHshRpr := miHshRpr s1 + 1\<rparr>) p
                                  (\<lambda>m. m\<lparr>iiCmp := CMPINV\<rparr>)
                       in Some (r, if iiCnt (mch s2 p) = 1
                                   then (upd (if mpNew s2 = None then s2\<lparr>mpLst := Some p\<rparr>
                                              else s2)
                                           p (\<lambda>m. m\<lparr>ipNxt := mpNew s2\<rparr>))\<lparr>mpNew := Some p\<rparr>
                                   else s2))
                 else Some (r, if iiCnt (mch s1 p) = 1 then addNew s1 p else s1)
               }
          else Some (Enlarged, s));
       Some (if miMchFre s3 = 0 \<and> mpOld s3 = None then Full else liRet, s3)
     }"

definition JMatchTable_add ::
  "'a::len itself \<Rightarrow> 'o getter \<Rightarrow> 'n getter \<Rightarrow> ('o, 'n) JMatchTable \<Rightarrow> int \<Rightarrow> int \<Rightarrow> int
     \<Rightarrow> (eMatchReturn \<times> ('o, 'n) JMatchTable) option" where
  "JMatchTable_add t getOrg getNew s azFndOrgAdd azFndNewAdd azRedNew =
     do {
       (lpCur, s1) \<leftarrow> add_join t s azFndOrgAdd azFndNewAdd;
       case lpCur of
         Some p \<Rightarrow>
           do {
             s2 \<leftarrow> (if mpOld s1 = Some p
                     then do {
                            (b, s') \<leftarrow> nextold (s1\<lparr>mpOld := ipNxt (mch s1 p)\<rparr>);
                            Some (addNew s' p)
                          }
                     else Some s1);
             add_eval getOrg getNew s2 p azRedNew
           }
       | None \<Rightarrow>
           if miMchFre s1 > 0
           then add_eval getOrg getNew
                  (add_fill (s1\<lparr>miMchFre := miMchFre s1 - 1\<rparr>) (nat (miMchFre s1 - 1))
                     azFndOrgAdd azFndNewAdd)
                  (nat (miMchFre s1 - 1)) azRedNew
           else
             (case mpOld s1 of
                Some p \<Rightarrow>
                  do {
                    (b, s2) \<leftarrow> nextold (s1\<lparr>mpOld := ipNxt (mch s1 p)\<rparr>);
                    s3 \<leftarrow> (if iiCnt (mch s2 p) = 1 \<or> iiGld (mch s2 p) = 0
                            then delCol s2 p else Some s2);
                    s4 \<leftarrow> (if iiCnt (mch s3 p) = 1 \<or> iiGld (mch s3 p) \<noteq> 0
                            then delGld s3 p else Some s3);
                    add_eval getOrg getNew (add_fill s4 p azFndOrgAdd azFndNewAdd) p azRedNew
                  }
              | None \<Rightarrow> Some (Error, s1))
     }"

subsection \<open>cleanup\<close>

partial_function (option) cleanup_loop ::
  "'o getter \<Rightarrow> 'n getter \<Rightarrow> int \<Rightarrow> ('o, 'n) JMatchTable \<Rightarrow> nat option
     \<Rightarrow> ('o, 'n) JMatchTable option" where
  "cleanup_loop getOrg getNew azRedNew s lpCur =
     (case lpCur of
        None \<Rightarrow> Some s
      | Some p \<Rightarrow>
          Option.bind
            (if isOld2Skip (mch s p) azRedNew
             then Some (upd s p (\<lambda>r. r\<lparr>iiCmp := CMPSKP\<rparr>))
             else map_option snd (isGoodOrBest getOrg getNew s azRedNew p))
            (\<lambda>s1. cleanup_loop getOrg getNew azRedNew s1 (ipNxt (mch s1 p))))"

declare cleanup_loop.simps [code]

text \<open>\<open>rlb\<close> is the value of \<open>mpHsh->get_reliability()\<close>.\<close>

definition JMatchTable_cleanup ::
  "'o getter \<Rightarrow> 'n getter \<Rightarrow> int \<Rightarrow> ('o, 'n) JMatchTable \<Rightarrow> int \<Rightarrow> int
     \<Rightarrow> (eMatchReturn \<times> ('o, 'n) JMatchTable) option" where
  "JMatchTable_cleanup getOrg getNew rlb s azBseOrg azRedNew =
     do {
       let s1 = (joinLists (s\<lparr>miRlb := rlb\<rparr>))\<lparr>mpBst := None, mzOld := azRedNew\<rparr>;
       s2 \<leftarrow> cleanup_loop getOrg getNew azRedNew s1 (mpOld s1);
       (b, s3) \<leftarrow> nextold s2;
       Some (if mpOld s3 = None \<and> miMchFre s3 = 0 then Full
             else if mpBst s3 = None then Invalid
             else if mzBstNew s3 \<noteq> azRedNew then Valid
             else if miBstCmp s3 \<ge> EQLMAX then Best
             else if miBstCmp s3 \<ge> EQLSZE then Good
             else Valid, s3)
     }"

subsection \<open>getbest\<close>

partial_function (option) getbest_loop ::
  "int \<Rightarrow> ('o, 'n) JMatchTable \<Rightarrow> nat option \<Rightarrow> bool
     \<Rightarrow> (bool \<times> ('o, 'n) JMatchTable) option" where
  "getbest_loop azRedNew s lpCur lbBstEob =
     (case lpCur of
        None \<Rightarrow> Some (lbBstEob, s)
      | Some p \<Rightarrow>
          if Some p \<noteq> mpBst s \<and> iiCmp (mch s p) \<le> CMPEOB \<and> izNew (mch s p) > izTst (mch s p)
          then Option.bind (isBest s p azRedNew 0 (izTst (mch s p)) (iiCmp (mch s p)))
                 (\<lambda>r. getbest_loop azRedNew (snd r) (ipNxt (mch (snd r) p))
                         (fst r \<or> lbBstEob))
          else getbest_loop azRedNew s (ipNxt (mch s p)) lbBstEob)"

declare getbest_loop.simps [code]

text \<open>
  \<open>getbest\<close> yields its return value, the two output parameters \<open>azBstOrg\<close> and \<open>azBstNew\<close>,
  and the table.
\<close>

definition JMatchTable_getbest ::
  "('o, 'n) JMatchTable \<Rightarrow> int \<Rightarrow> int \<Rightarrow> int \<Rightarrow> int
     \<Rightarrow> (bool \<times> int \<times> int \<times> ('o, 'n) JMatchTable) option" where
  "JMatchTable_getbest s azRedOrg azRedNew azBstOrg azBstNew =
     do {
       s3 \<leftarrow> (if \<not> mbCmpAll s
               then do {
                      (lbBstEob, s2) \<leftarrow> getbest_loop azRedNew (joinLists s)
                                          (mpOld (joinLists s)) False;
                      Some (if lbBstEob \<and> mzBstOrg s2 = 0
                            then (case calcPosOrg (mch s2 (the (mpBst s2))) (mzBstNew s2) of
                                    (g, tstOrg, tstNew) \<Rightarrow>
                                      s2\<lparr>mzBstOrg := tstOrg, mzBstNew := tstNew\<rparr>)
                            else s2)
                    }
               else Some s);
       Some (mpBst s3 \<noteq> None,
             if mpBst s3 \<noteq> None then mzBstOrg s3 else azBstOrg,
             if mpBst s3 \<noteq> None then mzBstNew s3 else azBstNew, s3)
     }"

subsection \<open>Sequences of calls\<close>

text \<open>
  A call of one of the three public operations, with its arguments; \<open>Cleanup\<close> carries, as
  its last argument, the reliability that the index reports at that moment.
\<close>

datatype mchCall = Add int int int | Cleanup int int int | Getbest int int

fun mchCall_run ::
  "'a::len itself \<Rightarrow> 'o getter \<Rightarrow> 'n getter \<Rightarrow> ('o, 'n) JMatchTable \<Rightarrow> mchCall
     \<Rightarrow> ('o, 'n) JMatchTable option" where
  "mchCall_run t getOrg getNew s (Add azFndOrgAdd azFndNewAdd azRedNew) =
     map_option snd (JMatchTable_add t getOrg getNew s azFndOrgAdd azFndNewAdd azRedNew)"
| "mchCall_run t getOrg getNew s (Cleanup azBseOrg azRedNew rlb) =
     map_option snd (JMatchTable_cleanup getOrg getNew rlb s azBseOrg azRedNew)"
| "mchCall_run t getOrg getNew s (Getbest azRedOrg azRedNew) =
     map_option (\<lambda>r. snd (snd (snd r))) (JMatchTable_getbest s azRedOrg azRedNew 0 0)"

fun mchCalls_run ::
  "'a::len itself \<Rightarrow> 'o getter \<Rightarrow> 'n getter \<Rightarrow> ('o, 'n) JMatchTable \<Rightarrow> mchCall list
     \<Rightarrow> ('o, 'n) JMatchTable option" where
  "mchCalls_run t getOrg getNew s [] = Some s"
| "mchCalls_run t getOrg getNew s (c # cs) =
     (case mchCall_run t getOrg getNew s c of
        None \<Rightarrow> None
      | Some s1 \<Rightarrow> mchCalls_run t getOrg getNew s1 cs)"

subsection \<open>The old list and the new list\<close>

text \<open>
  \<open>linked nx xs\<close>: each record of \<open>xs\<close> but the last has the next one as its successor.
\<close>

fun linked :: "(nat \<Rightarrow> nat option) \<Rightarrow> nat list \<Rightarrow> bool" where
  "linked nx [] = True"
| "linked nx [x] = True"
| "linked nx (x # y # ys) = (nx x = Some y \<and> linked nx (y # ys))"

fun first :: "nat list \<Rightarrow> nat option" where
  "first [] = None"
| "first (x # xs) = Some x"

text \<open>
  The old list is the chain from \<open>mpOld\<close> along \<open>ipNxt\<close> up to the null pointer; the new list
  is empty when \<open>mpNew\<close> is null, and else the chain from \<open>mpNew\<close> up to \<open>mpLst\<close>, whose own
  \<open>ipNxt\<close> is not part of it.
\<close>

definition nxt :: "('o, 'n) JMatchTable \<Rightarrow> nat \<Rightarrow> nat option" where
  "nxt s p = ipNxt (msMch s ! p)"

definition oldList :: "('o, 'n) JMatchTable \<Rightarrow> nat list \<Rightarrow> bool" where
  "oldList s xs =
     (distinct xs \<and> list_all (\<lambda>p. p < length (msMch s)) xs \<and> linked (nxt s) xs \<and>
      mpOld s = first xs \<and> (xs = [] \<or> nxt s (last xs) = None))"

definition newList :: "('o, 'n) JMatchTable \<Rightarrow> nat list \<Rightarrow> bool" where
  "newList s xs =
     (distinct xs \<and> list_all (\<lambda>p. p < length (msMch s)) xs \<and> linked (nxt s) xs \<and>
      mpNew s = first xs \<and> (xs = [] \<or> mpLst s = Some (last xs)))"

subsection \<open>The invariant of the match table\<close>

text \<open>
  The records in use are those from \<open>miMchFre\<close> up to the end of the pool: \<open>add\<close> takes
  unused records from the end downwards.
\<close>

definition allocd :: "('o, 'n) JMatchTable \<Rightarrow> nat set" where
  "allocd s = {nat (miMchFre s) ..< nat (miMchSze s)}"

text \<open>The sizes of the pool and of the two hash arrays.\<close>

definition sizes :: "('o, 'n) JMatchTable \<Rightarrow> bool" where
  "sizes s = (0 \<le> miMchFre s \<and> miMchFre s \<le> miMchSze s \<and> length (msMch s) = nat (miMchSze s) \<and>
              0 < miMchPme s \<and> length (mpCol s) = nat (miMchPme s) \<and>
              length (mpGld s) = nat (miMchPme s))"

text \<open>
  The chains of the two hash arrays stay within the records in use \<open>A\<close>, and a record in use
  has been found at least once.
\<close>

definition okp :: "nat set \<Rightarrow> nat option \<Rightarrow> bool" where
  "okp A q = (case q of None \<Rightarrow> True | Some p \<Rightarrow> p \<in> A)"

definition chains_on :: "nat set \<Rightarrow> ('o, 'n) JMatchTable \<Rightarrow> bool" where
  "chains_on A s =
     ((\<forall>q \<in> set (mpCol s). okp A q) \<and> (\<forall>q \<in> set (mpGld s). okp A q) \<and>
      (\<forall>p \<in> A. okp A (ipCol (mch s p)) \<and> okp A (ipGld (mch s p)) \<and> 1 \<le> iiCnt (mch s p)))"

text \<open>
  The old list and the new list are disjoint and together hold exactly the records \<open>S\<close>.
\<close>

definition lists_on :: "nat set \<Rightarrow> ('o, 'n) JMatchTable \<Rightarrow> nat list \<Rightarrow> nat list \<Rightarrow> bool" where
  "lists_on S s old new =
     (distinct (old @ new) \<and> set (old @ new) = S \<and> oldList s old \<and> newList s new)"

definition LS :: "nat set \<Rightarrow> ('o, 'n) JMatchTable \<Rightarrow> bool" where
  "LS S s = (\<exists>old new. lists_on S s old new)"

definition base :: "nat set \<Rightarrow> ('o, 'n) JMatchTable \<Rightarrow> bool" where
  "base A s = (sizes s \<and> chains_on A s \<and> allocd s = A)"

definition mch_inv :: "('o, 'n) JMatchTable \<Rightarrow> bool" where
  "mch_inv s = (sizes s \<and> chains_on (allocd s) s \<and> LS (allocd s) s)"

text \<open>
  Putting a record in front of the new list (as \<open>add\<close> does with an invalid match) and in
  front of the old list (as \<open>nextold\<close> does).
\<close>

definition pushNew :: "('o, 'n) JMatchTable \<Rightarrow> nat \<Rightarrow> ('o, 'n) JMatchTable" where
  "pushNew s p = (upd (if mpNew s = None then s\<lparr>mpLst := Some p\<rparr> else s) p
                    (\<lambda>r. r\<lparr>ipNxt := mpNew s\<rparr>))\<lparr>mpNew := Some p\<rparr>"

definition pushOld :: "('o, 'n) JMatchTable \<Rightarrow> nat \<Rightarrow> ('o, 'n) JMatchTable" where
  "pushOld s p = (upd s p (\<lambda>r. r\<lparr>ipNxt := mpOld s\<rparr>))\<lparr>mpOld := Some p\<rparr>"

text \<open>
  The invariant of the second loop of \<open>nextold\<close>: the old list is empty, \<open>lpCur\<close> is the
  head of the new list, and the last record of the new list points to nothing or, after a
  rotation, back to the head.
\<close>

definition Jnew :: "nat set \<Rightarrow> ('o, 'n) JMatchTable \<Rightarrow> nat option \<Rightarrow> bool" where
  "Jnew S s lpCur =
     (\<exists>new. lists_on S s [] new \<and>
        (lpCur = None \<or> lpCur = mpNew s \<and>
           (nxt s (last new) = None \<or> nxt s (last new) = mpNew s \<and> 2 \<le> length new)))"

text \<open>
  What the lists depend on (\<open>lview\<close>), what the chains depend on (\<open>cview\<close>), the sizes
  (\<open>zview\<close>), and their combinations: an evaluation of a match changes none of them
  (\<open>sview\<close>), an operation on the lists keeps \<open>kview\<close>, an operation on the chains keeps
  \<open>jview\<close>.
\<close>

definition lview where
  "lview s = (nxt s, length (msMch s), mpOld s, mpNew s, mpLst s)"

definition cview where
  "cview s = ((\<lambda>p. (ipCol (mch s p), ipGld (mch s p), iiCnt (mch s p))), mpCol s, mpGld s)"

definition zview where
  "zview s = (miMchFre s, miMchSze s, miMchPme s)"

definition sview where
  "sview s = (lview s, cview s, zview s)"

definition kview where
  "kview s = (cview s, zview s, length (msMch s))"

definition jview where
  "jview s = (lview s, zview s, length (mpCol s), length (mpGld s))"

subsection \<open>An example run\<close>

text \<open>
  A pool of 13 records with arbitrary content, two files, and a sequence of calls that fills
  the table and then reuses old records.
\<close>

definition mch_pool0 :: "rMch list" where
  "mch_pool0 = replicate 13
     \<lparr>ipNxt = Some 5, ipCol = Some 7, ipGld = Some 3, iiCnt = 0, iiGld = 0, izBeg = 0,
      izNew = 0, izOrg = 0, izDlt = 0, izTst = 0, iiCmp = 0\<rparr>"

definition mch_org0 :: "jchar list" where
  "mch_org0 = [1, 2, 3, 4, 5, 6, 7, 8, 9, 10, 11, 12, 13, 14, 15, 16, 17, 18, 19, 20]"

definition mch_new0 :: "jchar list" where
  "mch_new0 = [9, 9, 1, 2, 3, 4, 5, 6, 7, 8, 9, 10, 11, 12, 13, 14, 15, 16, 17, 18, 19, 20]"

definition mch_calls0 :: "mchCall list" where
  "mch_calls0 =
     [Cleanup 0 0 32,
      Add 0 0 0, Add 3 1 0, Add 6 2 0, Add 9 3 0, Add 12 4 0, Add 15 5 0, Add 18 6 0,
      Add 21 7 0, Add 24 8 0, Add 27 9 0, Add 30 10 0, Add 33 11 0, Add 36 12 0, Add 39 13 0,
      Getbest 0 0, Cleanup 0 3 32, Add 50 4 3, Add 51 4 3, Add 52 4 3]"

section \<open>Properties of the rolling hash\<close>

lemma JDiff_hash_eql_le:
  "aiEql \<le> SMPSZE TYPE('a) \<Longrightarrow> JDiff_hash (h :: 'a::len word) p c aiEql = (h', p', e')
     \<Longrightarrow> e' \<le> SMPSZE TYPE('a)"
  by (auto simp: JDiff_hash_def Let_def SMPSZE_def split: if_splits)

text \<open>
  Claim C3.  For every previous hash \<open>h\<close>, previous byte \<open>p\<close>, new byte \<open>c\<close> and
  equal-tail counter \<open>e\<close> in \<open>[0, SMPSZE]\<close>, the update first sets
  \<open>e := min (e + 1) SMPSZE\<close> if \<open>c = p\<close>, else \<open>e := 0\<close> and \<open>p := c\<close>, and then returns
  \<open>h' = (h << 1) + c + e\<close> (in the arithmetic of the key type).
\<close>

theorem JDiff_hash_update:
  fixes h :: "'a::len word"
  assumes "0 \<le> e" and "e \<le> SMPSZE TYPE('a)"
  shows "JDiff_hash h p c e =
           (let e' = (if c = p then min (e + 1) (SMPSZE TYPE('a)) else 0);
                p' = (if c = p then p else c)
            in (push_bit 1 h + of_int c + of_int e', p', e'))"
proof (cases "c = p")
  case True
  show ?thesis
  proof (cases "e < SMPSZE TYPE('a)")
    case True
    with \<open>c = p\<close> show ?thesis by (simp add: JDiff_hash_def Let_def min_def)
  next
    case False
    with assms have "e = SMPSZE TYPE('a)" by simp
    with \<open>c = p\<close> show ?thesis by (simp add: JDiff_hash_def Let_def min_def)
  qed
next
  case False
  then show ?thesis by (auto simp: JDiff_hash_def Let_def)
qed

theorem JDiff_hash_update_witness:
  "JDiff_hash (5 :: 32 word) 7 7 32 = (10 + 7 + 32, 7, 32) \<and>
   JDiff_hash (5 :: 32 word) 7 7 3 = (10 + 7 + 4, 7, 4) \<and>
   JDiff_hash (5 :: 32 word) 7 8 3 = (10 + 8 + 0, 8, 0)"
  using JDiff_hash_update [of 32 "5 :: 32 word" 7 7]
        JDiff_hash_update [of 3 "5 :: 32 word" 7 7]
        JDiff_hash_update [of 3 "5 :: 32 word" 7 8]
  by (simp add: SMPSZE_def)

section \<open>Properties of the source index\<close>

lemma JHashPos_add_mono:
  "miHshRlb s \<le> miHshRlb (JHashPos_add s h pos eq) \<and>
   miHshColMax s \<le> miHshColMax (JHashPos_add s h pos eq)"
  by (simp add: JHashPos_add_def Let_def COLLISION_THRESHOLD_def)

lemma JHashPos_adds_mono:
  "miHshRlb s \<le> miHshRlb (JHashPos_adds s ops) \<and>
   miHshColMax s \<le> miHshColMax (JHashPos_adds s ops)"
proof (induction ops arbitrary: s)
  case Nil
  show ?case by (simp add: JHashPos_adds_def)
next
  case (Cons x xs)
  obtain h pos eq where x: "x = (h, pos, eq)" by (cases x)
  have step: "JHashPos_adds s (x # xs) = JHashPos_adds (JHashPos_add s h pos eq) xs"
    by (simp add: JHashPos_adds_def x)
  from Cons.IH [of "JHashPos_add s h pos eq"] JHashPos_add_mono [of s h pos eq]
  show ?case unfolding step by linarith
qed

text \<open>
  Claim C4.  For every call \<open>add(h, pos, eq)\<close>: the load counter is decremented, or, when
  it has run out, reset to \<open>P\<close> while \<open>colMax\<close> and \<open>rlb\<close> grow by 4; the collision counter
  is lowered by 4 when \<open>eq \<le> 2 * SMPSZE\<close> and by 1 otherwise; the pair \<open>(h, pos)\<close> is stored
  into slot \<open>h mod P\<close> exactly when the lowered counter is \<open>\<le> 0\<close>, and the counter is then
  reset to \<open>colMax\<close>, the slots being unchanged otherwise; and \<open>rlb\<close> and \<open>colMax\<close> are
  non-decreasing across any sequence of adds.
\<close>

theorem JHashPos_add_policy:
  fixes s :: "'a::len word JHashPos"
  shows
  "(let wrap = \<not> (miLodCnt s > 0);
        cnt = miHshColCnt s - (if eq \<le> 2 * SMPSZE TYPE('a) then 4 else 1);
        s' = JHashPos_add s h pos eq
    in miLodCnt s' = (if wrap then miHshPme s else miLodCnt s - 1)
     \<and> miHshColMax s' = (if wrap then miHshColMax s + 4 else miHshColMax s)
     \<and> miHshRlb s' = (if wrap then miHshRlb s + 4 else miHshRlb s)
     \<and> miHshPme s' = miHshPme s
     \<and> (if cnt \<le> 0
         then mkHshTblHsh s' = (mkHshTblHsh s)[nat (uint h mod miHshPme s) := h]
            \<and> mzHshTblPos s' = (mzHshTblPos s)[nat (uint h mod miHshPme s) := pos]
            \<and> miHshColCnt s' = miHshColMax s'
         else mkHshTblHsh s' = mkHshTblHsh s
            \<and> mzHshTblPos s' = mzHshTblPos s
            \<and> miHshColCnt s' = cnt))
   \<and> miHshRlb s \<le> miHshRlb (JHashPos_adds s ops)
   \<and> miHshColMax s \<le> miHshColMax (JHashPos_adds s ops)"
  using JHashPos_adds_mono [of s ops]
  by (simp add: JHashPos_add_def Let_def colDec_def hshIdx_def COLLISION_THRESHOLD_def
        COLLISION_HIGH_def COLLISION_LOW_def mult.commute)

theorem JHashPos_add_policy_witness:
  "miHshColCnt (JHashPos_add (JHashPos_init [0, 0, 0] [0, 0, 0] 3 :: 32 word JHashPos) 10 5 0) = 4
 \<and> mzHshTblPos (JHashPos_add (JHashPos_init [0, 0, 0] [0, 0, 0] 3 :: 32 word JHashPos) 10 5 0)
      = [0, 5, 0]
 \<and> miLodCnt (JHashPos_add (JHashPos_init [0, 0, 0] [0, 0, 0] 3 :: 32 word JHashPos) 10 5 0) = 2"
  using JHashPos_add_policy [of "JHashPos_init [0, 0, 0] [0, 0, 0] 3 :: 32 word JHashPos" 0 10 5 "[]"]
  by (simp add: JHashPos_init_def Let_def SMPSZE_def COLLISION_THRESHOLD_def)

text \<open>
  What \<open>reset()\<close> does: it sets the load counter to \<open>P\<close>, \<open>colMax\<close> and \<open>colCnt\<close> to 4 and
  \<open>rlb\<close> to \<open>SMPSZE + SMPSZE / 2\<close>, and writes to neither slot array, so that a lookup
  finds after it what it found before it.
\<close>

lemma JHashPos_reset_keeps_content:
  fixes s :: "'a::len word JHashPos"
  shows "mkHshTblHsh (JHashPos_reset s) = mkHshTblHsh s
       \<and> mzHshTblPos (JHashPos_reset s) = mzHshTblPos s
       \<and> miHshPme (JHashPos_reset s) = miHshPme s
       \<and> miLodCnt (JHashPos_reset s) = miHshPme s
       \<and> miHshColMax (JHashPos_reset s) = 4
       \<and> miHshColCnt (JHashPos_reset s) = 4
       \<and> miHshRlb (JHashPos_reset s) = SMPSZE TYPE('a) + SMPSZE TYPE('a) div 2
       \<and> fst (JHashPos_get (JHashPos_reset s) h) = fst (JHashPos_get s h)"
  by (simp add: JHashPos_reset_def JHashPos_get_def hshIdx_def Let_def COLLISION_THRESHOLD_def)

text \<open>
  Claim C8: after \<open>reset()\<close>, \<open>get(h)\<close> does not return the position stored for \<open>h\<close>
  before the reset.  \<open>JHashPos.h\<close> and \<open>JHashPos.cpp\<close> document \<open>reset\<close> in the same sense
  (\<^verbatim>\<open>Hashtable reset: consider table to be empty\<close>), but the code does not do it: with
  \<open>P = 7\<close>, the pair \<open>(10, 5)\<close> is stored by the first \<open>add\<close>, and \<open>get(10)\<close> returns 5
  before the reset and still returns 5 after it.
\<close>

theorem JHashPos_reset_returns_stale_position:
  "fst (JHashPos_get (JHashPos_add
     (JHashPos_init (replicate 7 0) (replicate 7 0) 7 :: 32 word JHashPos) 10 5 0) 10) = Some 5 \<and>
   fst (JHashPos_get (JHashPos_reset (JHashPos_add
     (JHashPos_init (replicate 7 0) (replicate 7 0) 7 :: 32 word JHashPos) 10 5 0)) 10) = Some 5"
  by code_simp

section \<open>The sample quality passed by the driver\<close>

lemma scan_add_eql_le:
  fixes d :: "'a::len word JDiffScan"
  shows "miEqlOrg d \<le> SMPSZE TYPE('a) \<Longrightarrow> miEqlOrg (scan_add d c) \<le> SMPSZE TYPE('a)"
  by (auto simp: scan_add_def split: prod.splits dest: JDiff_hash_eql_le)

lemma scan_hash_eql_le:
  fixes d :: "'a::len word JDiffScan"
  shows "miEqlOrg d \<le> SMPSZE TYPE('a) \<Longrightarrow> miEqlOrg (scan_hash d c) \<le> SMPSZE TYPE('a)"
  by (auto simp: scan_hash_def split: prod.splits dest: JDiff_hash_eql_le)

lemma foldl_scan_hash_eql_le:
  fixes d :: "'a::len word JDiffScan"
  shows "miEqlOrg d \<le> SMPSZE TYPE('a) \<Longrightarrow> miEqlOrg (foldl scan_hash d cs) \<le> SMPSZE TYPE('a)"
  by (induction cs arbitrary: d) (simp_all add: scan_hash_eql_le)

lemma foldl_scan_hash_gpHsh: "gpHsh (foldl scan_hash d cs) = gpHsh d"
  by (induction cs arbitrary: d) (simp_all add: scan_hash_def split: prod.splits)

lemma colDec_high:
  "eq \<le> SMPSZE TYPE('a::len) \<Longrightarrow> colDec TYPE('a) eq = COLLISION_HIGH"
  by (simp add: colDec_def SMPSZE_def)

lemma JHashPos_add_counter:
  fixes t :: "'a::len word JHashPos"
  assumes "eq \<le> SMPSZE TYPE('a)"
  shows "miHshColCnt (JHashPos_add t h pos eq)
           = (if miHshColCnt t - COLLISION_HIGH \<le> 0 then miHshColMax (JHashPos_add t h pos eq)
              else miHshColCnt t - COLLISION_HIGH)"
  using assms by (simp add: JHashPos_add_def Let_def colDec_high)

lemma add_calls_quality:
  fixes d :: "'a::len word JDiffScan"
  assumes "miEqlOrg d \<le> SMPSZE TYPE('a)"
  shows "\<forall>(h, pos, eq) \<in> set (add_calls d cs).
            eq \<le> SMPSZE TYPE('a) \<and> colDec TYPE('a) eq = COLLISION_HIGH
          \<and> (\<forall>t :: 'a word JHashPos.
                miHshColCnt (JHashPos_add t h pos eq)
                  = (if miHshColCnt t - COLLISION_HIGH \<le> 0
                     then miHshColMax (JHashPos_add t h pos eq)
                     else miHshColCnt t - COLLISION_HIGH))"
  using assms
proof (induction cs arbitrary: d)
  case Nil
  show ?case by simp
next
  case (Cons c cs)
  obtain h p e where hs: "JDiff_hash (mlHshOrg d) (miPrvOrg d) c (miEqlOrg d) = (h, p, e)"
    by (cases "JDiff_hash (mlHshOrg d) (miPrvOrg d) c (miEqlOrg d)")
  from JDiff_hash_eql_le [OF Cons.prems hs] have e: "e \<le> SMPSZE TYPE('a)" .
  from Cons.IH [OF scan_add_eql_le [OF Cons.prems]]
  show ?case using hs e JHashPos_add_counter [OF e] by (simp add: colDec_high)
qed

lemma incremental_scan_adds:
  "gpHsh (incremental_scan d cs) = JHashPos_adds (gpHsh d) (add_calls d cs)"
proof (induction cs arbitrary: d)
  case Nil
  show ?case by (simp add: incremental_scan_def JHashPos_adds_def)
next
  case (Cons c cs)
  have "gpHsh (incremental_scan (scan_add d c) cs)
          = JHashPos_adds (gpHsh (scan_add d c)) (add_calls (scan_add d c) cs)"
    by (rule Cons.IH)
  then show ?case
    by (simp add: incremental_scan_def JHashPos_adds_def scan_add_def split: prod.splits)
qed

text \<open>
  Claim C10.  Because the hash update caps the equal-tail counter at \<open>SMPSZE\<close>, every call
  of \<open>add\<close> made by the driver passes a quality \<open>eq \<le> SMPSZE \<le> 2 * SMPSZE\<close>, so that the
  low-quality branch is not taken and \<open>add\<close> lowers the collision counter by exactly
  \<open>COLLISION_HIGH\<close> (4): whatever the state \<open>t\<close> of the index at the call, the counter after
  it is the counter before it less 4, or, when that is not positive, the collision maximum
  to which \<open>add\<close> then resets it.  This holds for the incremental and lookahead scans, from
  any scanner state whose counter is at most \<open>SMPSZE\<close> (the initial state is one), and for
  the full prescan; in both cases the index after the scan is the index after exactly the
  listed calls.
\<close>

theorem driver_adds_are_high_quality:
  fixes d :: "'a::len word JDiffScan" and hsh :: "'a word JHashPos"
  shows "(miEqlOrg d \<le> SMPSZE TYPE('a) \<longrightarrow>
            gpHsh (incremental_scan d cs) = JHashPos_adds (gpHsh d) (add_calls d cs)
          \<and> (\<forall>(h, pos, eq) \<in> set (add_calls d cs).
                eq \<le> SMPSZE TYPE('a) \<and> SMPSZE TYPE('a) \<le> 2 * SMPSZE TYPE('a)
              \<and> colDec TYPE('a) eq = COLLISION_HIGH \<and> colDec TYPE('a) eq \<noteq> COLLISION_LOW
              \<and> (\<forall>t :: 'a word JHashPos.
                    miHshColCnt (JHashPos_add t h pos eq)
                      = (if miHshColCnt t - COLLISION_HIGH \<le> 0
                         then miHshColMax (JHashPos_add t h pos eq)
                         else miHshColCnt t - COLLISION_HIGH))))
       \<and> miEqlOrg (JDiff_scan_init hsh) \<le> SMPSZE TYPE('a)
       \<and> gpHsh (buildFullIndex hsh cs)
            = JHashPos_adds hsh
                (add_calls (full_scan_start hsh cs) (drop (nat (SMPSZE TYPE('a) - 1)) cs))
       \<and> (\<forall>(h, pos, eq) \<in>
              set (add_calls (full_scan_start hsh cs) (drop (nat (SMPSZE TYPE('a) - 1)) cs)).
                eq \<le> SMPSZE TYPE('a) \<and> SMPSZE TYPE('a) \<le> 2 * SMPSZE TYPE('a)
              \<and> colDec TYPE('a) eq = COLLISION_HIGH \<and> colDec TYPE('a) eq \<noteq> COLLISION_LOW
              \<and> (\<forall>t :: 'a word JHashPos.
                    miHshColCnt (JHashPos_add t h pos eq)
                      = (if miHshColCnt t - COLLISION_HIGH \<le> 0
                         then miHshColMax (JHashPos_add t h pos eq)
                         else miHshColCnt t - COLLISION_HIGH)))"
proof -
  have pos: "SMPSZE TYPE('a) \<le> 2 * SMPSZE TYPE('a)" by (simp add: SMPSZE_def)
  have hl: "COLLISION_HIGH \<noteq> COLLISION_LOW" by (simp add: COLLISION_HIGH_def COLLISION_LOW_def)
  have e0: "miEqlOrg (full_scan_start hsh cs) \<le> SMPSZE TYPE('a)"
    unfolding full_scan_start_def by (rule foldl_scan_hash_eql_le) (simp add: SMPSZE_def)
  have g0: "gpHsh (full_scan_start hsh cs) = hsh"
    by (simp add: full_scan_start_def foldl_scan_hash_gpHsh)
  have b: "buildFullIndex hsh cs
             = incremental_scan (full_scan_start hsh cs) (drop (nat (SMPSZE TYPE('a) - 1)) cs)"
    by (simp add: buildFullIndex_def incremental_scan_def)
  have i: "miEqlOrg (JDiff_scan_init hsh) \<le> SMPSZE TYPE('a)"
    by (simp add: JDiff_scan_init_def SMPSZE_def)
  have 1: "miEqlOrg d \<le> SMPSZE TYPE('a) \<longrightarrow>
            gpHsh (incremental_scan d cs) = JHashPos_adds (gpHsh d) (add_calls d cs)
          \<and> (\<forall>(h, pos, eq) \<in> set (add_calls d cs).
                eq \<le> SMPSZE TYPE('a) \<and> SMPSZE TYPE('a) \<le> 2 * SMPSZE TYPE('a)
              \<and> colDec TYPE('a) eq = COLLISION_HIGH \<and> colDec TYPE('a) eq \<noteq> COLLISION_LOW
              \<and> (\<forall>t :: 'a word JHashPos.
                    miHshColCnt (JHashPos_add t h pos eq)
                      = (if miHshColCnt t - COLLISION_HIGH \<le> 0
                         then miHshColMax (JHashPos_add t h pos eq)
                         else miHshColCnt t - COLLISION_HIGH)))"
    using add_calls_quality [of d cs] incremental_scan_adds [of d cs] pos hl
    by (auto split: prod.splits)
  have 2: "\<forall>(h, pos, eq) \<in>
              set (add_calls (full_scan_start hsh cs) (drop (nat (SMPSZE TYPE('a) - 1)) cs)).
                eq \<le> SMPSZE TYPE('a) \<and> SMPSZE TYPE('a) \<le> 2 * SMPSZE TYPE('a)
              \<and> colDec TYPE('a) eq = COLLISION_HIGH \<and> colDec TYPE('a) eq \<noteq> COLLISION_LOW
              \<and> (\<forall>t :: 'a word JHashPos.
                    miHshColCnt (JHashPos_add t h pos eq)
                      = (if miHshColCnt t - COLLISION_HIGH \<le> 0
                         then miHshColMax (JHashPos_add t h pos eq)
                         else miHshColCnt t - COLLISION_HIGH))"
    using add_calls_quality [OF e0, of "drop (nat (SMPSZE TYPE('a) - 1)) cs"] pos hl
    by (auto split: prod.splits)
  have 3: "gpHsh (buildFullIndex hsh cs)
            = JHashPos_adds hsh
                (add_calls (full_scan_start hsh cs) (drop (nat (SMPSZE TYPE('a) - 1)) cs))"
    using incremental_scan_adds [of "full_scan_start hsh cs"] g0 b by simp
  from 1 i 3 2 show ?thesis by blast
qed

theorem driver_adds_are_high_quality_witness:
  "miEqlOrg (JDiff_scan_init (JHashPos_init (replicate 7 0) (replicate 7 0) 7 :: 8 word JHashPos))
     \<le> SMPSZE TYPE(8)
 \<and> map (\<lambda>(h, pos, eq). eq)
       (add_calls (JDiff_scan_init (JHashPos_init (replicate 7 0) (replicate 7 0) 7 :: 8 word JHashPos))
          (replicate 12 65))
     = [0, 1, 2, 3, 4, 5, 6, 7, 8, 8, 8, 8]
 \<and> map (\<lambda>(h, pos, eq). colDec TYPE(8) eq)
       (add_calls (JDiff_scan_init (JHashPos_init (replicate 7 0) (replicate 7 0) 7 :: 8 word JHashPos))
          (replicate 12 65))
     = replicate 12 COLLISION_HIGH
 \<and> map (\<lambda>(h, pos, eq). miHshColCnt
            (JHashPos_add ((JHashPos_init (replicate 7 0) (replicate 7 0) 7 :: 8 word JHashPos)
                             \<lparr>miHshColMax := 12, miHshColCnt := 9\<rparr>) h pos eq))
       (add_calls (JDiff_scan_init (JHashPos_init (replicate 7 0) (replicate 7 0) 7 :: 8 word JHashPos))
          (replicate 12 65))
     = replicate 12 5
 \<and> map miHshColCnt
       [JHashPos_adds (JHashPos_init (replicate 7 0) (replicate 7 0) 7 :: 8 word JHashPos)
          (take n (add_calls (JDiff_scan_init (JHashPos_init (replicate 7 0) (replicate 7 0) 7))
                     (replicate 12 65))). n \<leftarrow> [0..<13]]
     = [4, 4, 4, 4, 4, 4, 4, 4, 8, 4, 8, 4, 8]"
proof -
  have ev: ?thesis by code_simp
  from driver_adds_are_high_quality
         [of "JDiff_scan_init (JHashPos_init (replicate 7 0) (replicate 7 0) 7 :: 8 word JHashPos)"
             "replicate 12 65" "JHashPos_init (replicate 7 0) (replicate 7 0) 7"] ev
  show ?thesis by blast
qed

section \<open>Properties of the translation of a match into skips\<close>

text \<open>
  Claim C2.  For every call of \<open>search\<close> that elects a best match \<open>(fndOrg, fndNew)\<close> at
  read positions \<open>(posOrg, posNew)\<close> with backtrack base \<open>baseOrg\<close>: if
  \<open>fndOrg \<ge> posOrg\<close> and \<open>fndOrg - posOrg \<ge> fndNew - posNew\<close> then
  \<open>skipOrg = (fndOrg - posOrg) - (fndNew - posNew)\<close>, \<open>skipNew = 0\<close>, \<open>ahd = fndNew - posNew\<close>;
  if \<open>fndOrg \<ge> posOrg\<close> otherwise then \<open>skipOrg = 0\<close>,
  \<open>skipNew = (fndNew - posNew) - (fndOrg - posOrg)\<close>, \<open>ahd = fndOrg - posOrg\<close>; and if
  \<open>fndOrg < posOrg\<close> then, with \<open>s = (posOrg - fndOrg) + (fndNew - posNew)\<close>, either
  \<open>s \<le> posOrg - baseOrg\<close> and \<open>skipOrg = -s\<close>, \<open>skipNew = 0\<close>, \<open>ahd = fndNew - posNew\<close>, or else
  \<open>skipOrg = baseOrg - posOrg\<close>, \<open>skipNew = s - (posOrg - baseOrg)\<close>,
  \<open>ahd = (fndNew - posNew) - skipNew\<close>; in all these cases \<open>search\<close> returns 1.
  The best match is asked for only when the last read did not fail (\<open>miValNew \<ge> EOB\<close>).
\<close>

theorem search_translates_best_match:
  assumes "\<not> miValNew < EOB"
  shows "\<exists>skipOrg skipNew ahd.
     search_end t miValNew mzAhdNew (Some (fndOrg, fndNew)) posOrg posNew baseOrg outs
       = (1, skipOrg, skipNew, ahd)
   \<and> (fndOrg \<ge> posOrg \<and> fndOrg - posOrg \<ge> fndNew - posNew \<longrightarrow>
        skipOrg = (fndOrg - posOrg) - (fndNew - posNew) \<and> skipNew = 0 \<and> ahd = fndNew - posNew)
   \<and> (fndOrg \<ge> posOrg \<and> \<not> fndOrg - posOrg \<ge> fndNew - posNew \<longrightarrow>
        skipOrg = 0 \<and> skipNew = (fndNew - posNew) - (fndOrg - posOrg) \<and> ahd = fndOrg - posOrg)
   \<and> (fndOrg < posOrg \<longrightarrow>
        (let s = (posOrg - fndOrg) + (fndNew - posNew)
         in (s \<le> posOrg - baseOrg \<and> skipOrg = - s \<and> skipNew = 0 \<and> ahd = fndNew - posNew)
          \<or> (\<not> s \<le> posOrg - baseOrg \<and> skipOrg = baseOrg - posOrg
              \<and> skipNew = s - (posOrg - baseOrg) \<and> ahd = (fndNew - posNew) - skipNew)))"
  using assms by (simp add: search_end_def search_offsets_def Let_def)

theorem search_translates_best_match_witness:
  "search_end TYPE(32) 65 120 (Some (50, 20)) 10 10 0 (0, 0, 0) = (1, 30, 0, 10)
 \<and> search_end TYPE(32) 65 120 (Some (15, 40)) 10 10 0 (0, 0, 0) = (1, 0, 25, 5)
 \<and> search_end TYPE(32) 65 120 (Some (4, 12)) 10 10 0 (0, 0, 0) = (1, -8, 0, 2)
 \<and> search_end TYPE(32) 65 120 (Some (4, 12)) 10 10 7 (0, 0, 0) = (1, -3, 5, -3)"
  using search_translates_best_match [of 65 "TYPE(32)" 120 50 20 10 10 0 "(0, 0, 0)"]
        search_translates_best_match [of 65 "TYPE(32)" 120 15 40 10 10 0 "(0, 0, 0)"]
        search_translates_best_match [of 65 "TYPE(32)" 120 4 12 10 10 0 "(0, 0, 0)"]
        search_translates_best_match [of 65 "TYPE(32)" 120 4 12 10 10 7 "(0, 0, 0)"]
  by (simp add: EOB_def EOF_def Let_def)

section \<open>Properties of the length decoder\<close>

lemma uint_byte_bounds: "0 \<le> uint (c :: jchar) \<and> uint c < 256"
  using uint_lt2p [of c] by simp

lemma offt_uint: "0 \<le> k \<Longrightarrow> k < 2 ^ 64 \<Longrightarrow> uint (word_of_int k :: off_t) = k"
  by (simp add: uint_word_of_int take_bit_int_eq_self)

lemma offt_sint: "0 \<le> k \<Longrightarrow> k < 2 ^ 63 \<Longrightarrow> sint (word_of_int k :: off_t) = k"
  by (simp add: sint_sbintrunc' signed_take_bit_int_eq_self)

lemma shiftGet_step:
  "shiftGet (word_of_int k, c # fil) = (word_of_int (k * 256 + uint c), fil)"
  by (simp add: shiftGet_def JFile_get_next_def push_bit_eq_mult)

lemma first_lt: "((word_of_int (uint (c :: jchar)) :: off_t) <s 252) = (uint c < 252)"
proof -
  have "sint (word_of_int (uint c) :: off_t) = uint c"
    using uint_byte_bounds [of c] by (intro offt_sint) simp_all
  moreover have "sint (252 :: off_t) = 252" by simp
  ultimately show ?thesis unfolding word_sless_alt by simp
qed

lemma first_eq:
  assumes n: "0 \<le> n" "n < 256"
  shows "((word_of_int (uint (c :: jchar)) :: off_t) = word_of_int n) = (uint c = n)"
proof -
  have a: "uint (word_of_int (uint c) :: off_t) = uint c"
    using uint_byte_bounds [of c] by (intro offt_uint) simp_all
  have b: "uint (word_of_int n :: off_t) = n" using n by (intro offt_uint) simp_all
  show ?thesis
  proof
    assume "(word_of_int (uint c) :: off_t) = word_of_int n"
    then have "uint (word_of_int (uint c) :: off_t) = uint (word_of_int n :: off_t)" by simp
    with a b show "uint c = n" by simp
  next
    assume "uint c = n" then show "(word_of_int (uint c) :: off_t) = word_of_int n" by simp
  qed
qed

lemma ufGetInt_unfold:
  "ufGetInt (c0 # fil0) =
     (if uint c0 < 252 then (word_of_int (uint c0 + 1), fil0)
      else if uint c0 = 252 then (let (c, fil1) = JFile_get_next fil0 in (of_int (253 + c), fil1))
      else if uint c0 = 253 then
        (let (c, fil1) = JFile_get_next fil0 in shiftGet (of_int c, fil1))
      else if uint c0 = 254 then
        (let (c, fil1) = JFile_get_next fil0
         in shiftGet (shiftGet (shiftGet (of_int c, fil1))))
      else
        (let (c, fil1) = JFile_get_next fil0
         in shiftGet (shiftGet (shiftGet (shiftGet (shiftGet (shiftGet (shiftGet
              (of_int c, fil1)))))))))"
proof -
  have e2: "((word_of_int (uint c0) :: off_t) = 252) = (uint c0 = 252)"
    using first_eq [of 252 c0] by simp
  have e3: "((word_of_int (uint c0) :: off_t) = 253) = (uint c0 = 253)"
    using first_eq [of 253 c0] by simp
  have e4: "((word_of_int (uint c0) :: off_t) = 254) = (uint c0 = 254)"
    using first_eq [of 254 c0] by simp
  show ?thesis
    unfolding ufGetInt_def JFile_get_next_def Let_def list.case prod.case
    unfolding first_lt e2 e3 e4
    by simp
qed

lemma big_endian_snoc: "big_endian (cs @ [c]) = big_endian cs * 256 + uint c"
  by (simp add: big_endian_def)

lemma big_endian_bound: "0 \<le> big_endian cs \<and> big_endian cs < 2 ^ (8 * length cs)"
proof (induction cs rule: rev_induct)
  case Nil
  show ?case by (simp add: big_endian_def)
next
  case (snoc c cs)
  have b: "0 \<le> uint c" "uint c < 256" using uint_byte_bounds [of c] by simp_all
  from snoc have "big_endian cs + 1 \<le> 2 ^ (8 * length cs)" by simp
  then have "(big_endian cs + 1) * 256 \<le> 2 ^ (8 * length cs) * 256"
    by (rule mult_right_mono) simp
  then have "big_endian cs * 256 + 256 \<le> 2 ^ (8 * length cs + 8)"
    by (simp add: algebra_simps power_add)
  with b snoc show ?case by (simp add: big_endian_snoc add.commute)
qed

lemma big_endian_uint:
  assumes "length cs \<le> 8"
  shows "uint (word_of_int (big_endian cs) :: off_t) = big_endian cs"
proof -
  from assms have "(2::int) ^ (8 * length cs) \<le> 2 ^ 64" by (intro power_increasing) simp_all
  with big_endian_bound [of cs] show ?thesis by (intro offt_uint) simp_all
qed

text \<open>
  Claim C7.  The length decoder maps a first byte \<open>b\<close> in 0..251 to \<open>b + 1\<close> (range 1..252);
  first byte 252 followed by one byte \<open>x\<close> to \<open>253 + x\<close> (range 253..508); first byte 253
  followed by two bytes to their big-endian 16-bit value; first byte 254 followed by four
  bytes to their big-endian 32-bit value; first byte 255 followed by eight bytes to their
  big-endian 64-bit value.  In each case the decoded offset, read as an unsigned 64-bit
  number, is that value, and the reader is left behind the last byte of the encoding.
\<close>

theorem ufGetInt_decodes:
  "(uint b \<le> 251 \<longrightarrow>
      ufGetInt (b # fil) = (word_of_int (uint b + 1), fil)
    \<and> uint (word_of_int (uint b + 1) :: off_t) = uint b + 1
    \<and> 1 \<le> uint b + 1 \<and> uint b + 1 \<le> 252)
 \<and> ufGetInt (252 # x1 # fil) = (word_of_int (253 + uint x1), fil)
 \<and> uint (word_of_int (253 + uint x1) :: off_t) = 253 + uint x1
 \<and> 253 \<le> 253 + uint x1 \<and> 253 + uint x1 \<le> 508
 \<and> ufGetInt (253 # x1 # x2 # fil) = (word_of_int (big_endian [x1, x2]), fil)
 \<and> uint (word_of_int (big_endian [x1, x2]) :: off_t) = big_endian [x1, x2]
 \<and> ufGetInt (254 # x1 # x2 # x3 # x4 # fil) = (word_of_int (big_endian [x1, x2, x3, x4]), fil)
 \<and> uint (word_of_int (big_endian [x1, x2, x3, x4]) :: off_t) = big_endian [x1, x2, x3, x4]
 \<and> ufGetInt (255 # x1 # x2 # x3 # x4 # x5 # x6 # x7 # x8 # fil)
      = (word_of_int (big_endian [x1, x2, x3, x4, x5, x6, x7, x8]), fil)
 \<and> uint (word_of_int (big_endian [x1, x2, x3, x4, x5, x6, x7, x8]) :: off_t)
      = big_endian [x1, x2, x3, x4, x5, x6, x7, x8]"
proof -
  have b1: "0 \<le> uint x1" "uint x1 < 256" using uint_byte_bounds [of x1] by simp_all
  have bb: "0 \<le> uint b" "uint b < 256" using uint_byte_bounds [of b] by simp_all
  have c1: "uint b \<le> 251 \<longrightarrow> ufGetInt (b # fil) = (word_of_int (uint b + 1), fil)"
    by (simp add: ufGetInt_unfold del: of_int_add of_int_uint)
  have c1u: "uint (word_of_int (uint b + 1) :: off_t) = uint b + 1"
    using bb by (intro offt_uint) simp_all
  have c2: "ufGetInt (252 # x1 # fil) = (word_of_int (253 + uint x1), fil)"
    by (simp add: ufGetInt_unfold JFile_get_next_def del: of_int_add of_int_uint)
  have c2u: "uint (word_of_int (253 + uint x1) :: off_t) = 253 + uint x1"
    using b1 by (intro offt_uint) simp_all
  have c3: "ufGetInt (253 # x1 # x2 # fil) = (word_of_int (big_endian [x1, x2]), fil)"
    by (simp add: ufGetInt_unfold JFile_get_next_def shiftGet_step big_endian_def
          del: of_int_add of_int_mult of_int_uint)
  have c4: "ufGetInt (254 # x1 # x2 # x3 # x4 # fil)
              = (word_of_int (big_endian [x1, x2, x3, x4]), fil)"
    by (simp add: ufGetInt_unfold JFile_get_next_def shiftGet_step big_endian_def
          del: of_int_add of_int_mult of_int_uint)
  have c5: "ufGetInt (255 # x1 # x2 # x3 # x4 # x5 # x6 # x7 # x8 # fil)
      = (word_of_int (big_endian [x1, x2, x3, x4, x5, x6, x7, x8]), fil)"
    by (simp add: ufGetInt_unfold JFile_get_next_def shiftGet_step big_endian_def
          del: of_int_add of_int_mult of_int_uint)
  show ?thesis
    using c1 c1u c2 c2u c3 c4 c5 big_endian_uint [of "[x1, x2]"]
      big_endian_uint [of "[x1, x2, x3, x4]"]
      big_endian_uint [of "[x1, x2, x3, x4, x5, x6, x7, x8]"] b1 bb
    by simp
qed

theorem ufGetInt_decodes_witness:
  "ufGetInt [7, 9] = (8, [9])
 \<and> ufGetInt [252, 0] = (253, [])
 \<and> ufGetInt [253, 1, 253] = (509, [])
 \<and> ufGetInt [254, 0, 1, 0, 0] = (65536, [])
 \<and> ufGetInt [255, 0, 0, 0, 1, 0, 0, 0, 0] = (4294967296, [])"
  using ufGetInt_decodes [of 7 "[9]" 0]
    ufGetInt_decodes [of 7 "[]" 0 0]
    ufGetInt_decodes [of 7 "[]" 1 253 ]
    ufGetInt_decodes [of 7 "[]" 0 1 0 0]
    ufGetInt_decodes [of 7 "[]" 0 0 0 1 0 0 0 0]
  by (simp add: big_endian_def)

section \<open>Properties of the exit codes\<close>

lemmas EXI_defs = EXI_OK_def EXI_DIF_def EXI_EQL_def EXI_ARG_def EXI_SEK_def EXI_LRG_def
  EXI_RED_def EXI_WRI_def EXI_MEM_def EXI_ERR_def EXI_FRT_def EXI_SCD_def EXI_OUT_def

text \<open>
  The exit codes of the results other than \<open>EXI_EQL\<close>: 0 for \<open>EXI_OK\<close>, 1 when differences
  were found, the negated code for an error (6 seek, 7 large file, 8 read, 9 write,
  10 memory, 2 arguments, 20 other), and 20 for every unknown result.
\<close>

lemma main_exit_codes:
  "main_exit EXI_OK = 0
 \<and> main_exit EXI_DIF = 1
 \<and> (n > 0 \<longrightarrow> main_exit (main_diff_result EXI_OK n) = 1)
 \<and> main_exit EXI_SEK = 6 \<and> main_exit EXI_LRG = 7 \<and> main_exit EXI_RED = 8
 \<and> main_exit EXI_WRI = 9 \<and> main_exit EXI_MEM = 10 \<and> main_exit EXI_ARG = 2
 \<and> main_exit EXI_ERR = 20
 \<and> (liRet \<notin> {EXI_OK, EXI_DIF, EXI_EQL, EXI_ARG, EXI_SEK, EXI_LRG, EXI_RED, EXI_WRI, EXI_MEM, EXI_ERR}
      \<longrightarrow> main_exit liRet = 20 \<and> main_exit (main_diff_result liRet n) = 20)
 \<and> (liRet \<in> {EXI_SEK, EXI_LRG, EXI_RED, EXI_WRI, EXI_MEM, EXI_ARG, EXI_ERR}
      \<longrightarrow> main_exit (main_diff_result liRet n) = - liRet)"
  by (auto simp: main_exit_def main_diff_result_def EXI_defs)

text \<open>
  Claim C9: the program exits with code 0 for a generic OK, with code 1 when differences
  were found and with code 2 when no differences were found.  \<open>JDefs.h\<close> defines
  \<open>EXI_EQL\<close> as 2, \<^verbatim>\<open>OK Exit code, no differences found\<close>, and the exit switch calls
  \<open>exit(EXI_DIF)\<close> for \<open>EXI_DIF\<close>; but for \<open>EXI_EQL\<close> it calls \<open>exit(EXI_OK)\<close>.  So when
  \<open>jdiff()\<close> returns \<open>EXI_OK\<close> and no data byte was written to the patch, the result is
  \<open>EXI_EQL\<close> and the program exits with code 0, not 2.
\<close>

theorem main_exit_no_differences:
  "main_diff_result EXI_OK 0 = EXI_EQL \<and> EXI_EQL = 2
 \<and> main_exit (main_diff_result EXI_OK 0) = 0 \<and> main_exit (main_diff_result EXI_OK 0) \<noteq> 2
 \<and> main_exit (main_diff_result EXI_OK 1) = 1"
  by (simp add: main_exit_def main_diff_result_def EXI_defs)

section \<open>Properties of the buffered reader\<close>









lemma getbuf_addr_Some: "\<exists>p n. getbuf_addr s azPos = (Some p, n)"
  by (simp add: getbuf_addr_def Let_def)


lemma uint_not_EOB: "uint (c :: jchar) \<noteq> EOB"
proof -
  have "0 \<le> uint c" by simp
  then show ?thesis unfolding EOB_def EOF_def by linarith
qed

lemma code_results [simp]:
  "EOF \<noteq> EOB" "EXI_SEK \<noteq> EOB" "EXI_RED \<noteq> EOB"
  by (simp_all add: EOB_def EOF_def EXI_SEK_def EXI_RED_def)

declare uint_not_EOB [simp]









section \<open>Properties of the byte-level verification\<close>



lemma matched_run_0 [simp]: "matched_run src dst m po pn 0"
  by (simp add: matched_run_def)

lemma matched_run_step:
  "0 \<le> k \<Longrightarrow> matched_run src dst m po pn (k + 1)
     = (matched_run src dst m po pn k \<and> src (po + k) m = dst (pn + k) m \<and> 0 \<le> src (po + k) m)"
proof -
  assume k: "0 \<le> k"
  then have "nat (k + 1) = Suc (nat k)" by simp
  with k show ?thesis by (simp add: matched_run_def)
qed

lemma chk_inv_frame:
  "chk_inv src dst m p0 l0 (c\<lparr>filOrg := fo, lcOrg := vo\<rparr>) = chk_inv src dst m p0 l0 c"
  "chk_inv src dst m p0 l0 (c\<lparr>filOrg := fo, lcOrg := vo, filNew := fn, lcNew := vn\<rparr>)
     = chk_inv src dst m p0 l0 c"
  by (simp_all add: chk_inv_def)

lemma chk_inv_match:
  assumes "chk_inv src dst m p0 l0 c" "liEql c < EQLMAX"
    "src (azPosOrg c) m = dst (azPosNew c) m" "\<not> src (azPosOrg c) m < 0"
  shows "chk_inv src dst m p0 l0
           (c\<lparr>filOrg := fo, lcOrg := vo, filNew := fn, lcNew := vn,
              azPosOrg := azPosOrg c + 1, azPosNew := azPosNew c + 1,
              liEql := liEql c + 1, aiLen := aiLen c - 1\<rparr>)"
  using assms by (simp add: chk_inv_def matched_run_step)

lemma chk_inv_skip:
  assumes "chk_inv src dst m p0 l0 c" "\<not> aiLen c \<le> 0"
  shows "chk_inv src dst m p0 l0
           (c\<lparr>filOrg := fo, lcOrg := vo, filNew := fn, lcNew := vn,
              azPosNew := azPosNew c + 1, azPosOrg := po,
              liEql := 0, aiLen := aiLen c - 1\<rparr>)"
  using assms by (simp add: chk_inv_def EQLMAX_def)

lemma check_loop_inv:
  "chk_inv src dst aiSft p0 l0 c
     \<longrightarrow> chk_inv src dst aiSft p0 l0 (check_loop (fun_get src) (fun_get dst) aiGld aiSft c)"
proof (induction "fun_get src" "fun_get dst" aiGld aiSft c rule: check_loop.induct)
  case (1 aiGld aiSft c)
  show ?case
    apply (subst check_loop.simps)
    using 1
    apply (simp add: Let_def fun_get_def chk_inv_frame chk_inv_match chk_inv_skip
             del: check_loop.simps)
    done
qed


lemma check_loop_stopped:
  "0 \<le> lcOrg c \<and> 0 \<le> lcNew c
     \<longrightarrow> chk_stopped src dst aiSft (check_loop (fun_get src) (fun_get dst) aiGld aiSft c)"
proof (induction "fun_get src" "fun_get dst" aiGld aiSft c rule: check_loop.induct)
  case (1 aiGld aiSft c)
  show ?case
    apply (subst check_loop.simps)
    using 1
    apply (simp add: Let_def fun_get_def)
    apply (simp add: chk_stopped_def)
    done
qed

lemma chk_range_steps:
  "chk_range (c\<lparr>filOrg := fo, lcOrg := vo\<rparr>) = chk_range c"
  "chk_range (c\<lparr>filOrg := fo, lcOrg := vo, filNew := fn, lcNew := vn\<rparr>) = chk_range c"
  "chk_range c \<Longrightarrow> liEql c < EQLMAX \<Longrightarrow>
     chk_range (c\<lparr>filOrg := fo, lcOrg := vo, filNew := fn, lcNew := vn,
              azPosOrg := po, azPosNew := pn, liEql := liEql c + 1, aiLen := l\<rparr>)"
  "chk_range (c\<lparr>filOrg := fo, lcOrg := vo, filNew := fn, lcNew := vn,
              azPosNew := pn, azPosOrg := po, liEql := 0, aiLen := l\<rparr>)"
  by (simp_all add: chk_range_def EQLMAX_def)

lemma check_loop_range:
  "chk_range c \<longrightarrow> chk_range (check_loop getOrg getNew aiGld aiSft c)"
proof (induction getOrg getNew aiGld aiSft c rule: check_loop.induct)
  case (1 getOrg getNew aiGld aiSft c)
  show ?case
    apply (subst check_loop.simps)
    using 1
    apply (simp add: Let_def chk_range_steps split: prod.splits del: check_loop.simps)
    done
qed


lemma run_org_0 [simp]: "run_org g po 0 = po"
  by (simp add: run_org_def)

lemma run_org_1: "run_org g (run_org g po 1) d = run_org g po (d + 1)"
  by (simp add: run_org_def)

lemma list_all_upt_Suc:
  "list_all P [0..<Suc n] = (P 0 \<and> list_all (\<lambda>t. P (Suc t)) [0..<n])"
  by (induction n) auto

lemma matched_run_head:
  assumes "0 < r"
  shows "matched_run src dst m po pn r
           = (src po m = dst pn m \<and> 0 \<le> src po m \<and> matched_run src dst m (po + 1) (pn + 1) (r - 1))"
proof -
  from assms obtain n where n: "nat r = Suc n" "nat (r - 1) = n"
    by (cases "nat r") (auto simp: nat_diff_distrib)
  show ?thesis
    unfolding matched_run_def n list_all_upt_Suc
    by (simp add: algebra_simps)
qed

lemma skipped_run_0 [simp]: "skipped_run src dst m g po pn 0"
  by (simp add: skipped_run_def)

lemma skipped_run_head:
  assumes "0 < d"
  shows "skipped_run src dst m g po pn d
           = (0 \<le> src po m \<and> 0 \<le> dst pn m \<and> (g \<noteq> 0 \<longrightarrow> src po m \<noteq> dst pn m)
              \<and> skipped_run src dst m g (run_org g po 1) (pn + 1) (d - 1))"
proof -
  from assms obtain n where n: "nat d = Suc n" "nat (d - 1) = n"
    by (cases "nat d") (auto simp: nat_diff_distrib)
  show ?thesis
    unfolding skipped_run_def n list_all_upt_Suc
    by (simp add: algebra_simps run_org_def)
qed

lemma chk_found_frame:
  "chk_found K (c\<lparr>filOrg := fo, lcOrg := vo\<rparr>) = chk_found K c"
  "chk_found K (c\<lparr>filOrg := fo, lcOrg := vo, filNew := fn, lcNew := vn\<rparr>) = chk_found K c"
  by (simp_all add: chk_found_def)

lemma chk_ahead_cap:
  assumes "chk_ahead_ex src dst m g K c" "\<not> liEql c < EQLMAX"
  shows "chk_found K c"
  using assms by (auto simp: chk_found_def EQLMAX_def EQLSZE_def)

lemma chk_ahead_long:
  assumes "EQLSZE \<le> liEql c"
  shows "chk_found K c"
  using assms by (auto simp: chk_found_def)

lemma chk_ahead_neg:
  assumes "chk_ahead_ex src dst m g K c"
    and "src (azPosOrg c) m < 0 \<or> dst (azPosNew c) m < 0"
  shows "chk_found K c"
proof -
  from assms(1) obtain d r where a: "chk_ahead src dst m g K c d r"
    by (auto simp: chk_ahead_ex_def)
  show ?thesis
  proof (cases "EQLSZE \<le> liEql c")
    case True thus ?thesis by (rule chk_ahead_long)
  next
    case False
    have d0: "d = 0"
    proof (rule ccontr)
      assume "d \<noteq> 0"
      with a have "0 < d" by (simp add: chk_ahead_def)
      with a False assms(2) show False
        by (auto simp: chk_ahead_def skipped_run_head)
    qed
    have r0: "r = 0"
    proof (rule ccontr)
      assume "r \<noteq> 0"
      with a have "0 < r" by (simp add: chk_ahead_def)
      with a False d0 assms(2) show False
        by (auto simp: chk_ahead_def matched_run_head)
    qed
    from a False d0 r0 show ?thesis by (auto simp: chk_ahead_def chk_found_def)
  qed
qed

lemma chk_ahead_budget:
  assumes "chk_ahead_ex src dst m g K c"
    and "\<not> src (azPosOrg c) m < 0" "\<not> dst (azPosNew c) m < 0"
    and "src (azPosOrg c) m \<noteq> dst (azPosNew c) m" "aiLen c \<le> 0"
  shows "chk_found K c"
proof -
  from assms(1) obtain d r where a: "chk_ahead src dst m g K c d r"
    by (auto simp: chk_ahead_ex_def)
  show ?thesis
  proof (cases "EQLSZE \<le> liEql c")
    case True thus ?thesis by (rule chk_ahead_long)
  next
    case False
    have d0: "d = 0"
    proof (rule ccontr)
      assume "d \<noteq> 0"
      with a have "0 < d" by (simp add: chk_ahead_def)
      with a False assms(5) show False by (auto simp: chk_ahead_def)
    qed
    have r0: "r = 0"
    proof (rule ccontr)
      assume "r \<noteq> 0"
      with a have "0 < r" by (simp add: chk_ahead_def)
      with a False d0 assms(4) show False
        by (auto simp: chk_ahead_def matched_run_head)
    qed
    from a False d0 r0 show ?thesis by (auto simp: chk_ahead_def chk_found_def)
  qed
qed

lemma chk_ahead_match:
  assumes "chk_ahead_ex src dst m g K c"
    and "\<not> src (azPosOrg c) m < 0" "\<not> dst (azPosNew c) m < 0"
    and "src (azPosOrg c) m = dst (azPosNew c) m"
  shows "chk_ahead_ex src dst m g K
           (c\<lparr>filOrg := fo, lcOrg := vo, filNew := fn, lcNew := vn,
              azPosOrg := azPosOrg c + 1, azPosNew := azPosNew c + 1,
              liEql := liEql c + 1, aiLen := aiLen c - 1\<rparr>)"
    (is "chk_ahead_ex src dst m g K ?c'")
proof -
  from assms(1) obtain d r where a: "chk_ahead src dst m g K c d r"
    by (auto simp: chk_ahead_ex_def)
  from a have e: "0 \<le> liEql c" "0 \<le> d" "0 \<le> r" by (simp_all add: chk_ahead_def)
  show ?thesis
  proof (cases "EQLSZE \<le> liEql c + 1")
    case True
    with e have "chk_ahead src dst m g K ?c' 0 0"
      by (simp add: chk_ahead_def)
    thus ?thesis by (auto simp: chk_ahead_ex_def)
  next
    case False
    hence ns: "\<not> EQLSZE \<le> liEql c" by simp
    show ?thesis
    proof (cases "0 < d")
      case True
      with a ns assms(4) have g0: "g = 0" by (auto simp: chk_ahead_def skipped_run_head)
      from a ns True g0 have
        s: "skipped_run src dst m g (azPosOrg c + 1) (azPosNew c + 1) (d - 1)"
        and b: "d \<le> aiLen c"
        and mr: "matched_run src dst m (azPosOrg c + d) (azPosNew c + d) r"
        and k: "K \<le> r"
        and t: "EQLSZE \<le> r \<or> run_ends src dst m (azPosOrg c + d + r) (azPosNew c + d + r) (aiLen c - (d + r))"
        by (auto simp: chk_ahead_def skipped_run_head run_org_def)
      have "chk_ahead src dst m g K ?c' (d - 1) r"
        unfolding chk_ahead_def using e True g0 s b mr k t False
        by (auto simp: algebra_simps run_org_def)
      thus ?thesis by (auto simp: chk_ahead_ex_def)
    next
      case False
      with e have d0: "d = 0" by simp
      show ?thesis
      proof (cases "0 < r")
        case True
        from a ns d0 True have
          mr: "matched_run src dst m (azPosOrg c + 1) (azPosNew c + 1) (r - 1)"
          and k: "K \<le> liEql c + r"
          and t: "EQLSZE \<le> liEql c + r \<or> run_ends src dst m (azPosOrg c + r) (azPosNew c + r) (aiLen c - r)"
          by (auto simp: chk_ahead_def matched_run_head)
        have "chk_ahead src dst m g K ?c' 0 (r - 1)"
          unfolding chk_ahead_def using e True mr k t
          by (auto simp: algebra_simps)
        thus ?thesis by (auto simp: chk_ahead_ex_def)
      next
        case False
        with e have r0: "r = 0" by simp
        from a ns d0 r0 assms(2-4) have False
          by (auto simp: chk_ahead_def run_ends_def)
        thus ?thesis ..
      qed
    qed
  qed
qed

lemma chk_ahead_skip:
  assumes "chk_ahead_ex src dst m g K c"
    and "\<not> src (azPosOrg c) m < 0" "\<not> dst (azPosNew c) m < 0"
    and "src (azPosOrg c) m \<noteq> dst (azPosNew c) m"
    and "\<not> EQLSZE \<le> liEql c" "\<not> aiLen c \<le> 0"
  shows "chk_ahead_ex src dst m g K
           (c\<lparr>filOrg := fo, lcOrg := vo, filNew := fn, lcNew := vn,
              azPosNew := azPosNew c + 1,
              azPosOrg := (if g \<noteq> 0 then azPosOrg c - liEql c else azPosOrg c + 1),
              liEql := 0, aiLen := aiLen c - 1\<rparr>)"
    (is "chk_ahead_ex src dst m g K ?c'")
proof -
  from assms(1) obtain d r where a: "chk_ahead src dst m g K c d r"
    by (auto simp: chk_ahead_ex_def)
  from a have e: "0 \<le> liEql c" "0 \<le> d" "0 \<le> r" by (simp_all add: chk_ahead_def)
  have dp: "0 < d"
  proof (rule ccontr)
    assume "\<not> 0 < d"
    with e have d0: "d = 0" by simp
    show False
    proof (cases "0 < r")
      case True
      with a d0 assms(4,5) show False by (auto simp: chk_ahead_def matched_run_head)
    next
      case False
      with e have "r = 0" by simp
      with a d0 assms(2-6) show False by (auto simp: chk_ahead_def run_ends_def)
    qed
  qed
  from a assms(5) dp have
    s: "skipped_run src dst m g (run_org g (azPosOrg c) 1) (azPosNew c + 1) (d - 1)"
    and b: "d \<le> aiLen c" and z: "g \<noteq> 0 \<longrightarrow> liEql c = 0"
    and mr: "matched_run src dst m (run_org g (azPosOrg c) d) (azPosNew c + d) r"
    and k: "K \<le> r"
    and t: "EQLSZE \<le> r \<or> run_ends src dst m (run_org g (azPosOrg c) d + r)
              (azPosNew c + d + r) (aiLen c - (d + r))"
    by (auto simp: chk_ahead_def skipped_run_head)
  have "chk_ahead src dst m g K ?c' (d - 1) r"
    unfolding chk_ahead_def using e dp s b z mr k t
    by (cases "g = 0") (auto simp: algebra_simps run_org_def)
  thus ?thesis unfolding chk_ahead_ex_def by blast
qed

lemma chk_ahead_neg1:
  "chk_ahead_ex src dst m g K c \<Longrightarrow> src (azPosOrg c) m < 0 \<Longrightarrow> chk_found K c"
  by (rule chk_ahead_neg) auto

lemma chk_ahead_neg2:
  "chk_ahead_ex src dst m g K c \<Longrightarrow> dst (azPosNew c) m < 0 \<Longrightarrow> chk_found K c"
  by (rule chk_ahead_neg) auto

lemma check_loop_ahead:
  "chk_ahead_ex src dst aiSft aiGld K c
     \<longrightarrow> chk_found K (check_loop (fun_get src) (fun_get dst) aiGld aiSft c)"
proof (induction "fun_get src" "fun_get dst" aiGld aiSft c rule: check_loop.induct)
  case (1 aiGld aiSft c)
  show ?case
    apply (subst check_loop.simps)
    using 1
    apply (simp add: Let_def fun_get_def chk_found_frame chk_ahead_cap chk_ahead_long
             chk_ahead_neg1 chk_ahead_neg2 chk_ahead_budget chk_ahead_match chk_ahead_skip
             del: check_loop.simps cong del: if_weak_cong)
    done
qed

lemma chk_pos_steps:
  "chk_pos g p q (c\<lparr>filOrg := fo, lcOrg := vo\<rparr>) = chk_pos g p q c"
  "chk_pos g p q (c\<lparr>filOrg := fo, lcOrg := vo, filNew := fn, lcNew := vn\<rparr>) = chk_pos g p q c"
  "chk_pos g p q c \<Longrightarrow>
     chk_pos g p q (c\<lparr>filOrg := fo, lcOrg := vo, filNew := fn, lcNew := vn,
              azPosOrg := azPosOrg c + 1, azPosNew := azPosNew c + 1,
              liEql := liEql c + 1, aiLen := l\<rparr>)"
  "chk_pos 0 p q c \<Longrightarrow>
     chk_pos 0 p q (c\<lparr>filOrg := fo, lcOrg := vo, filNew := fn, lcNew := vn,
              azPosNew := azPosNew c + 1, azPosOrg := azPosOrg c + 1,
              liEql := 0, aiLen := l\<rparr>)"
  "g \<noteq> 0 \<Longrightarrow> chk_pos g p q c \<Longrightarrow>
     chk_pos g p q (c\<lparr>filOrg := fo, lcOrg := vo, filNew := fn, lcNew := vn,
              azPosNew := azPosNew c + 1, azPosOrg := azPosOrg c - liEql c,
              liEql := 0, aiLen := l\<rparr>)"
  by (simp_all add: chk_pos_def)

lemma check_loop_pos:
  "chk_pos aiGld posOrg posNew c
     \<longrightarrow> chk_pos aiGld posOrg posNew (check_loop getOrg getNew aiGld aiSft c)"
proof (induction getOrg getNew aiGld aiSft c rule: check_loop.induct)
  case (1 getOrg getNew aiGld aiSft c)
  show ?case
    apply (subst check_loop.simps)
    using 1
    apply (cases "aiGld = 0")
     apply (simp add: Let_def chk_pos_steps split: prod.splits
              del: check_loop.simps)
    apply (simp add: Let_def chk_pos_steps split: prod.splits del: check_loop.simps)
    done
qed

text \<open>
  Claim C1, as stated: \<open>check\<close> returns a value \<open>\<ge> EQLMIN + 1\<close> if and only if a run of
  \<open>k \<ge> EQLMIN + 1\<close> equal bytes was read and matched within the budget.  It fails from
  right to left: on \<open>1 2 3 4 5 9\<close> against \<open>1 2 3 4 5 8\<close>, with a budget of 1024, the
  first five bytes are read and match, the sixth differs while budget remains and fewer
  than \<open>EQLSZE\<close> bytes were equal, so the run is abandoned; the source then ends and
  \<open>check\<close> returns 0.
\<close>

theorem check_short_run_counterexample:
  "check (fun_get (mem_byte [1, 2, 3, 4, 5, 9])) (fun_get (mem_byte [1, 2, 3, 4, 5, 8]))
     () () 0 0 1024 0 HardAhead = (0, 6, 6, (), ())
 \<and> matched_run (mem_byte [1, 2, 3, 4, 5, 9]) (mem_byte [1, 2, 3, 4, 5, 8]) HardAhead 0 0 5
 \<and> EQLMIN + 1 \<le> 5 \<and> 5 \<le> (1024 :: int) \<and> 5 \<le> EQLMAX"
  by code_simp

text \<open>
  Claim C1, amended.  For every input \<open>check\<close> returns \<open>CMPEOB\<close>, 0 or a value from
  \<open>EQLMIN + 1\<close> to \<open>EQLMAX\<close>, never one in \<open>1..EQLMIN\<close>; a colliding scan returns positions
  at the same distance as \<open>org\<close> and \<open>new\<close>, a gliding one a source position from \<open>org\<close> to
  \<open>org + EQLMIN\<close>, and \<open>org\<close> itself with a result \<open>\<ge> EQLMIN + 1\<close>.  Over readers that
  answer by position: when it returns \<open>v \<ge> EQLMIN + 1\<close>, the \<open>v\<close> bytes from the returned
  positions on are equal in source and destination, the returned positions are the start
  of that run, which begins at most \<open>max 0 len\<close> bytes after \<open>new\<close>, and the run is the one on
  which the scan stopped (it has \<open>EQLMAX\<close> bytes, or the next pair is not a pair of equal
  bytes).  Conversely, when \<open>d\<close> pairs of bytes can be skipped within the budget (in a gliding
  scan each of these destination bytes differs from the source byte at \<open>org\<close>) and are
  followed by a run of \<open>r \<ge> EQLMIN + 1\<close> equal bytes, and the run has at least \<open>EQLSZE\<close>
  bytes or ends on a negative read or on a mismatch with the budget used up, then \<open>check\<close>
  returns at least \<open>min r EQLSZE\<close>.  Only a run of fewer than \<open>EQLSZE\<close> equal bytes followed
  by a mismatch while budget remains is abandoned.  When \<open>check\<close> returns \<open>CMPEOB\<close>, the
  read that stopped the scan returned \<open>EOB\<close>; when it returns 0, the scan stopped on a read
  that did not return \<open>EOB\<close>.
\<close>

theorem check_result:
  "(case check getOrg getNew fo fn posOrg posNew len aiGld aiSft of
      (v, po, pn, fo', fn') \<Rightarrow>
        (v = CMPEOB \<or> v = 0 \<or> (EQLMIN + 1 \<le> v \<and> v \<le> EQLMAX))
      \<and> (aiGld = 0 \<longrightarrow> po - pn = posOrg - posNew)
      \<and> (aiGld \<noteq> 0 \<longrightarrow> posOrg \<le> po \<and> po \<le> posOrg + EQLMIN \<and> (EQLMIN + 1 \<le> v \<longrightarrow> po = posOrg)))
 \<and> (case check (fun_get src) (fun_get dst) () () posOrg posNew len aiGld aiSft of
      (v, po, pn, uo, un) \<Rightarrow>
        (EQLMIN + 1 \<le> v \<longrightarrow>
           matched_run src dst aiSft po pn v \<and> posNew \<le> pn \<and> pn - posNew \<le> max 0 len
         \<and> (v = EQLMAX \<or> src (po + v) aiSft < 0 \<or> dst (pn + v) aiSft < 0
              \<or> src (po + v) aiSft \<noteq> dst (pn + v) aiSft))
      \<and> (0 \<le> d \<and> (d = 0 \<or> d \<le> len)
           \<and> skipped_run src dst aiSft aiGld posOrg posNew d
           \<and> EQLMIN + 1 \<le> r
           \<and> matched_run src dst aiSft (run_org aiGld posOrg d) (posNew + d) r
           \<and> (EQLSZE \<le> r
               \<or> run_ends src dst aiSft (run_org aiGld posOrg d + r) (posNew + d + r) (len - (d + r)))
         \<longrightarrow> min r EQLSZE \<le> v)
      \<and> (v = CMPEOB \<longrightarrow> src po aiSft = EOB \<or> (0 \<le> src po aiSft \<and> dst pn aiSft = EOB))
      \<and> (v = 0 \<longrightarrow> src po aiSft \<noteq> EOB \<and> (src po aiSft < 0 \<or> dst pn aiSft \<noteq> EOB)))"
proof -
  let ?ci = "\<lparr>filOrg = fo, filNew = fn, azPosOrg = posOrg, azPosNew = posNew,
               aiLen = len, lcOrg = 0, lcNew = 0, liEql = 0\<rparr>"
  let ?ui = "\<lparr>filOrg = (), filNew = (), azPosOrg = posOrg, azPosNew = posNew,
               aiLen = len, lcOrg = 0, lcNew = 0, liEql = 0\<rparr>"
  let ?c = "check_loop getOrg getNew aiGld aiSft ?ci"
  let ?u = "check_loop (fun_get src) (fun_get dst) aiGld aiSft ?ui"
  have "chk_range ?ci" by (simp add: chk_range_def EQLMAX_def)
  with check_loop_range [of ?ci getOrg getNew aiGld aiSft] have rg: "chk_range ?c" by blast
  have "chk_pos aiGld posOrg posNew ?ci" by (simp add: chk_pos_def)
  with check_loop_pos [of aiGld posOrg posNew ?ci getOrg getNew aiSft]
  have ps: "chk_pos aiGld posOrg posNew ?c" by blast
  from rg ps have g: "case check getOrg getNew fo fn posOrg posNew len aiGld aiSft of
      (v, po, pn, fo', fn') \<Rightarrow>
        (v = CMPEOB \<or> v = 0 \<or> (EQLMIN + 1 \<le> v \<and> v \<le> EQLMAX))
      \<and> (aiGld = 0 \<longrightarrow> po - pn = posOrg - posNew)
      \<and> (aiGld \<noteq> 0 \<longrightarrow> posOrg \<le> po \<and> po \<le> posOrg + EQLMIN \<and> (EQLMIN + 1 \<le> v \<longrightarrow> po = posOrg))"
    by (auto simp: check_def Let_def chk_range_def chk_pos_def EQLMIN_def CMPEOB_def)
  have "chk_inv src dst aiSft posNew len ?ui" by (simp add: chk_inv_def EQLMAX_def)
  with check_loop_inv [of src dst aiSft posNew len ?ui aiGld]
  have inv: "chk_inv src dst aiSft posNew len ?u" by blast
  have st: "chk_stopped src dst aiSft ?u"
    using check_loop_stopped [of ?ui src dst aiSft aiGld] by simp
  have neg: "EOB < 0" by (simp add: EOB_def EOF_def)
  have fnd: "min r EQLSZE \<le> liEql ?u \<and> EQLMIN < liEql ?u"
    if h: "0 \<le> d" "d = 0 \<or> d \<le> len"
      "skipped_run src dst aiSft aiGld posOrg posNew d"
      "EQLMIN + 1 \<le> r"
      "matched_run src dst aiSft (run_org aiGld posOrg d) (posNew + d) r"
      "EQLSZE \<le> r
         \<or> run_ends src dst aiSft (run_org aiGld posOrg d + r) (posNew + d + r) (len - (d + r))"
  proof -
    from h have "chk_ahead src dst aiSft aiGld r ?ui d r"
      by (auto simp: chk_ahead_def EQLMIN_def)
    hence "chk_ahead_ex src dst aiSft aiGld r ?ui" unfolding chk_ahead_ex_def by blast
    with check_loop_ahead [of src dst aiSft aiGld r ?ui] have "chk_found r ?u" by blast
    with h(4) show ?thesis by (auto simp: chk_found_def EQLMIN_def EQLSZE_def)
  qed
  have s1: "case check (fun_get src) (fun_get dst) () () posOrg posNew len aiGld aiSft of
      (v, po, pn, uo, un) \<Rightarrow>
        (EQLMIN + 1 \<le> v \<longrightarrow>
           matched_run src dst aiSft po pn v \<and> posNew \<le> pn \<and> pn - posNew \<le> max 0 len
         \<and> (v = EQLMAX \<or> src (po + v) aiSft < 0 \<or> dst (pn + v) aiSft < 0
              \<or> src (po + v) aiSft \<noteq> dst (pn + v) aiSft))
      \<and> (v = CMPEOB \<longrightarrow> src po aiSft = EOB \<or> (0 \<le> src po aiSft \<and> dst pn aiSft = EOB))
      \<and> (v = 0 \<longrightarrow> src po aiSft \<noteq> EOB \<and> (src po aiSft < 0 \<or> dst pn aiSft \<noteq> EOB))"
    using inv st neg
    by (auto simp: check_def Let_def chk_inv_def chk_stopped_def EQLMIN_def EQLMAX_def CMPEOB_def)
  have s2: "case check (fun_get src) (fun_get dst) () () posOrg posNew len aiGld aiSft of
      (v, po, pn, uo, un) \<Rightarrow>
        (0 \<le> d \<and> (d = 0 \<or> d \<le> len)
           \<and> skipped_run src dst aiSft aiGld posOrg posNew d
           \<and> EQLMIN + 1 \<le> r
           \<and> matched_run src dst aiSft (run_org aiGld posOrg d) (posNew + d) r
           \<and> (EQLSZE \<le> r
               \<or> run_ends src dst aiSft (run_org aiGld posOrg d + r) (posNew + d + r) (len - (d + r)))
         \<longrightarrow> min r EQLSZE \<le> v)"
  proof (cases "0 \<le> d \<and> (d = 0 \<or> d \<le> len)
           \<and> skipped_run src dst aiSft aiGld posOrg posNew d
           \<and> EQLMIN + 1 \<le> r
           \<and> matched_run src dst aiSft (run_org aiGld posOrg d) (posNew + d) r
           \<and> (EQLSZE \<le> r
               \<or> run_ends src dst aiSft (run_org aiGld posOrg d + r) (posNew + d + r) (len - (d + r)))")
    case True
    with fnd have "min r EQLSZE \<le> liEql ?u" "EQLMIN < liEql ?u" by blast+
    thus ?thesis by (simp add: check_def Let_def)
  next
    case False
    thus ?thesis unfolding case_prod_unfold by blast
  qed
  from g s1 s2 show ?thesis by (simp add: case_prod_unfold)
qed

theorem check_result_witness:
  "check (fun_get (mem_byte [9, 9, 1, 2, 3, 4, 5, 6, 7, 8, 5]))
     (fun_get (mem_byte [0, 0, 1, 2, 3, 4, 5, 6, 7, 8, 6])) () () 0 0 1024 0 HardAhead
     = (8, 2, 2, (), ())
 \<and> skipped_run (mem_byte [9, 9, 1, 2, 3, 4, 5, 6, 7, 8, 5])
      (mem_byte [0, 0, 1, 2, 3, 4, 5, 6, 7, 8, 6]) HardAhead 0 0 0 2
 \<and> matched_run (mem_byte [9, 9, 1, 2, 3, 4, 5, 6, 7, 8, 5])
      (mem_byte [0, 0, 1, 2, 3, 4, 5, 6, 7, 8, 6]) HardAhead 2 2 8
 \<and> check (fun_get (mem_byte [1, 2, 3, 4, 5])) (fun_get (mem_byte [7, 1, 2, 3, 4, 5]))
      () () 0 0 4 1 HardAhead = (5, 0, 1, (), ())
 \<and> skipped_run (mem_byte [1, 2, 3, 4, 5]) (mem_byte [7, 1, 2, 3, 4, 5]) HardAhead 1 0 0 1
 \<and> matched_run (mem_byte [1, 2, 3, 4, 5]) (mem_byte [7, 1, 2, 3, 4, 5]) HardAhead 0 1 5
 \<and> run_ends (mem_byte [1, 2, 3, 4, 5]) (mem_byte [7, 1, 2, 3, 4, 5]) HardAhead 5 6 (4 - 6)"
proof -
  let ?s1 = "mem_byte [9, 9, 1, 2, 3, 4, 5, 6, 7, 8, 5]"
  let ?d1 = "mem_byte [0, 0, 1, 2, 3, 4, 5, 6, 7, 8, 6]"
  let ?s2 = "mem_byte [1, 2, 3, 4, 5]"
  let ?d2 = "mem_byte [7, 1, 2, 3, 4, 5]"
  have ev1: "check (fun_get ?s1) (fun_get ?d1) () () 0 0 1024 0 HardAhead = (8, 2, 2, (), ())"
    by code_simp
  have ev2: "check (fun_get ?s2) (fun_get ?d2) () () 0 0 4 1 HardAhead = (5, 0, 1, (), ())"
    by code_simp
  have h1: "(0 :: int) \<le> 2 \<and> ((2 :: int) = 0 \<or> (2 :: int) \<le> 1024)
      \<and> skipped_run ?s1 ?d1 HardAhead 0 0 0 2 \<and> EQLMIN + 1 \<le> 8
      \<and> matched_run ?s1 ?d1 HardAhead (run_org 0 0 2) (0 + 2) 8 \<and> EQLSZE \<le> 8"
    by code_simp
  have h2: "(0 :: int) \<le> 1 \<and> ((1 :: int) = 0 \<or> (1 :: int) \<le> 4)
      \<and> skipped_run ?s2 ?d2 HardAhead 1 0 0 1 \<and> EQLMIN + 1 \<le> 5
      \<and> matched_run ?s2 ?d2 HardAhead (run_org 1 0 1) (0 + 1) 5
      \<and> run_ends ?s2 ?d2 HardAhead (run_org 1 0 1 + 5) (0 + 1 + 5) (4 - (1 + 5))"
    by code_simp
  have r: "run_org 0 0 2 = 2" "run_org 1 0 1 = 0" by (simp_all add: run_org_def)
  from check_result [where getOrg = "fun_get ?s1" and getNew = "fun_get ?d1" and fo = "()"
         and fn = "()" and posOrg = 0 and posNew = 0 and len = 1024 and aiGld = 0
         and aiSft = HardAhead and src = ?s1 and dst = ?d1 and d = 2 and r = 8]
       check_result [where getOrg = "fun_get ?s2" and getNew = "fun_get ?d2" and fo = "()"
         and fn = "()" and posOrg = 0 and posNew = 0 and len = 4 and aiGld = 1
         and aiSft = HardAhead and src = ?s2 and dst = ?d2 and d = 1 and r = 5]
       ev1 ev2 h1 h2 r
  show ?thesis by simp
qed

section \<open>The accounting of the match table\<close>

subsection \<open>Views of the table\<close>

lemma lists_on_lview: "lview s' = lview s \<Longrightarrow> lists_on S s' old new = lists_on S s old new"
  by (simp add: lview_def lists_on_def oldList_def newList_def)

lemma chains_on_cview: "cview s' = cview s \<Longrightarrow> chains_on A s' = chains_on A s"
  by (auto simp: cview_def chains_on_def fun_eq_iff)

lemma allocd_zview: "zview s' = zview s \<Longrightarrow> allocd s' = allocd s"
  by (simp add: zview_def allocd_def)

lemma kviewD: "kview s' = kview s \<Longrightarrow> cview s' = cview s \<and> zview s' = zview s \<and> length (msMch s') = length (msMch s)"
  unfolding kview_def by (simp only: prod.inject)

lemma jviewD: "jview s' = jview s \<Longrightarrow> lview s' = lview s \<and> zview s' = zview s \<and> length (mpCol s') = length (mpCol s) \<and> length (mpGld s') = length (mpGld s)"
  unfolding jview_def by (simp only: prod.inject)

lemma sviewD: "sview s' = sview s \<Longrightarrow> lview s' = lview s \<and> cview s' = cview s \<and> zview s' = zview s"
  unfolding sview_def by (simp only: prod.inject)

lemma cview_heads: "cview s' = cview s \<Longrightarrow> mpCol s' = mpCol s \<and> mpGld s' = mpGld s"
  unfolding cview_def by (simp only: prod.inject)

lemma lview_len: "lview s' = lview s \<Longrightarrow> length (msMch s') = length (msMch s)"
  unfolding lview_def by (simp only: prod.inject)

lemma zviewD: "zview s' = zview s \<Longrightarrow> miMchFre s' = miMchFre s \<and> miMchSze s' = miMchSze s \<and> miMchPme s' = miMchPme s"
  unfolding zview_def by (simp only: prod.inject)

lemma sview_kview: "sview s' = sview s \<Longrightarrow> kview s' = kview s"
  using sviewD[of s' s] lview_len[of s' s] unfolding kview_def by (simp only:)

lemma sview_jview: "sview s' = sview s \<Longrightarrow> jview s' = jview s"
  using sviewD[of s' s] cview_heads[of s' s] unfolding jview_def by (simp only:)

lemma sizes_kview: "kview s' = kview s \<Longrightarrow> sizes s' = sizes s"
  using kviewD[of s' s] cview_heads[of s' s] zviewD[of s' s] unfolding sizes_def by (simp only:)

lemma sizes_jview: "jview s' = jview s \<Longrightarrow> sizes s' = sizes s"
  using jviewD[of s' s] lview_len[of s' s] zviewD[of s' s] unfolding sizes_def by (simp only:)

lemma allocd_kview: "kview s' = kview s \<Longrightarrow> allocd s' = allocd s"
  using kviewD[of s' s] allocd_zview[of s' s] by (simp only:)

lemma allocd_jview: "jview s' = jview s \<Longrightarrow> allocd s' = allocd s"
  using jviewD[of s' s] allocd_zview[of s' s] by (simp only:)

lemma chains_on_kview: "kview s' = kview s \<Longrightarrow> chains_on A s' = chains_on A s"
  using kviewD[of s' s] chains_on_cview[of s' s] by (simp only:)

lemma lists_on_jview: "jview s' = jview s \<Longrightarrow> lists_on S s' old new = lists_on S s old new"
  using jviewD[of s' s] lists_on_lview[of s' s] by (simp only:)

lemma LS_jview:
  assumes "jview s' = jview s"
  shows "LS S s' = LS S s"
proof -
  have "\<And>old new. lists_on S s' old new = lists_on S s old new"
    by (rule lists_on_jview[OF assms])
  thus ?thesis unfolding LS_def by blast
qed

lemma kview_len: "kview s' = kview s \<Longrightarrow> length (msMch s') = length (msMch s)"
  using kviewD[of s' s] by (simp only:)

lemma jview_len: "jview s' = jview s \<Longrightarrow> length (msMch s') = length (msMch s)"
  using jviewD[of s' s] lview_len[of s' s] by (simp only:)

lemma cview_cnt:
  assumes "cview s' = cview s"
  shows "iiCnt (mch s' p) = iiCnt (mch s p)"
proof -
  from assms have "(\<lambda>p. (ipCol (mch s' p), ipGld (mch s' p), iiCnt (mch s' p))) =
                   (\<lambda>p. (ipCol (mch s p), ipGld (mch s p), iiCnt (mch s p)))"
    unfolding cview_def by (simp only: prod.inject)
  from fun_cong[OF this, of p] show ?thesis by simp
qed

lemma kview_cnt: "kview s' = kview s \<Longrightarrow> iiCnt (mch s' p) = iiCnt (mch s p)"
  using kviewD[of s' s] cview_cnt[of s' s] by (simp only:)

lemma upd_fields [simp]:
  "miMchSze (upd s q f) = miMchSze s" "miMchFre (upd s q f) = miMchFre s"
  "miMchPme (upd s q f) = miMchPme s" "mpCol (upd s q f) = mpCol s" "mpGld (upd s q f) = mpGld s"
  "mpOld (upd s q f) = mpOld s" "mpNew (upd s q f) = mpNew s" "mpLst (upd s q f) = mpLst s"
  "mpBst (upd s q f) = mpBst s" "mzBstOrg (upd s q f) = mzBstOrg s" "mzBstNew (upd s q f) = mzBstNew s"
  "miBstCmp (upd s q f) = miBstCmp s" "mzOld (upd s q f) = mzOld s"
  "mpFilOrg (upd s q f) = mpFilOrg s" "mpFilNew (upd s q f) = mpFilNew s"
  "mbCmpAll (upd s q f) = mbCmpAll s" "miAhdMax (upd s q f) = miAhdMax s"
  "miRlb (upd s q f) = miRlb s" "miHshRpr (upd s q f) = miHshRpr s"
  "length (msMch (upd s q f)) = length (msMch s)"
  by (simp_all add: upd_def)

lemma mch_upd: "mch (upd s q f) p = (if p = q \<and> q < length (msMch s) then f (mch s p) else mch s p)"
  by (cases "q < length (msMch s)") (simp_all add: mch_def upd_def list_update_beyond)

lemma nxt_mch: "nxt s p = ipNxt (mch s p)"
  by (simp add: nxt_def mch_def)

lemma nxt_upd_keep: "(\<And>r. ipNxt (f r) = ipNxt r) \<Longrightarrow> nxt (upd s q f) = nxt s"
  by (auto simp: nxt_mch mch_upd fun_eq_iff)

lemma nxt_upd_set: "q < length (msMch s) \<Longrightarrow> nxt (upd s q (\<lambda>r. r\<lparr>ipNxt := v\<rparr>)) = (nxt s)(q := v)"
  by (auto simp: nxt_mch mch_upd fun_eq_iff)

lemma lview_upd_keep: "(\<And>r. ipNxt (f r) = ipNxt r) \<Longrightarrow> lview (upd s q f) = lview s"
  by (simp add: lview_def nxt_upd_keep)

lemma cview_upd_keep:
  "(\<And>r. ipCol (f r) = ipCol r \<and> ipGld (f r) = ipGld r \<and> iiCnt (f r) = iiCnt r) \<Longrightarrow> cview (upd s q f) = cview s"
  by (auto simp: cview_def mch_upd fun_eq_iff)

lemma zview_upd [simp]: "zview (upd s q f) = zview s"
  by (simp add: zview_def)

lemma sview_upd_keep:
  "(\<And>r. ipNxt (f r) = ipNxt r \<and> ipCol (f r) = ipCol r \<and> ipGld (f r) = ipGld r \<and> iiCnt (f r) = iiCnt r) \<Longrightarrow> sview (upd s q f) = sview s"
  by (simp add: sview_def lview_upd_keep cview_upd_keep)

lemma sview_fields [simp]:
  "sview (s\<lparr>mpBst := a\<rparr>) = sview s"
  "sview (s\<lparr>mzBstOrg := b\<rparr>) = sview s"
  "sview (s\<lparr>mzBstNew := b\<rparr>) = sview s"
  "sview (s\<lparr>miBstCmp := b\<rparr>) = sview s"
  "sview (s\<lparr>mzOld := b\<rparr>) = sview s"
  "sview (s\<lparr>mpFilOrg := fo\<rparr>) = sview s"
  "sview (s\<lparr>mpFilNew := fn\<rparr>) = sview s"
  "sview (s\<lparr>miRlb := b\<rparr>) = sview s"
  "sview (s\<lparr>miHshRpr := b\<rparr>) = sview s"
  by (simp_all add: sview_def lview_def cview_def zview_def nxt_def mch_def fun_eq_iff)

lemma isBest_elect_sview: "sview (snd (isBest_elect s p r tO tN c n)) = sview s"
  by (simp add: isBest_elect_def Let_def)

lemma isBest_sview: "isBest s p r tO tN c = Some (b, s') \<Longrightarrow> sview s' = sview s"
proof -
  have u: "\<And>c. sview (upd s p (\<lambda>r. r\<lparr>iiCmp := c\<rparr>)) = sview s"
    by (rule sview_upd_keep) simp
  assume a: "isBest s p r tO tN c = Some (b, s')"
  show ?thesis
  proof (cases "c \<le> CMPEOB")
    case True
    with a obtain c1 o1 n1 where e: "eobEstimate s (mch s p) tO tN = Some (c1, o1, n1)"
      by (auto simp: isBest_def split: option.splits)
    with a True have "s' = snd (isBest_elect
                        (if c1 > 3 then upd s p (\<lambda>r. r\<lparr>iiCmp := - c1\<rparr>) else s)
                        p r o1 n1 c1
                        (if iiGld (mch s p) > 0 then 1 + cdiv (iiCnt (mch s p)) 2
                         else iiCnt (mch s p)))"
      by (auto simp: isBest_def)
    thus ?thesis by (simp add: isBest_elect_sview u)
  next
    case False
    with a have "s' = snd (isBest_elect s p r tO tN c (-1))"
      by (auto simp: isBest_def)
    thus ?thesis by (simp add: isBest_elect_sview)
  qed
qed

lemma isGoodOrBest_end_sview:
  "isGoodOrBest_end s p r c tO tN = Some (x, s') \<Longrightarrow> sview s' = sview s"
  by (auto simp: isGoodOrBest_end_def Let_def split: option.splits dest: isBest_sview)

lemma isGoodOrBest_sview:
  assumes "isGoodOrBest gO gN s r p = Some (x, s')"
  shows "sview s' = sview s"
proof -
  have u: "\<And>a c fo fn. sview (upd (s\<lparr>mpFilOrg := fo, mpFilNew := fn\<rparr>) p (\<lambda>r. r\<lparr>izTst := a, iiCmp := c r\<rparr>)) = sview s"
    by (subst sview_upd_keep) simp_all
  from assms show ?thesis
    by (auto simp: isGoodOrBest_def Let_def u split: if_splits prod.splits
             dest!: isGoodOrBest_end_sview)
qed

lemma nxt_fields [simp]:
  "nxt (s\<lparr>mpOld := a\<rparr>) = nxt s" "nxt (s\<lparr>mpNew := a\<rparr>) = nxt s" "nxt (s\<lparr>mpLst := a\<rparr>) = nxt s"
  "nxt (s\<lparr>mpCol := c\<rparr>) = nxt s" "nxt (s\<lparr>mpGld := c\<rparr>) = nxt s" "nxt (s\<lparr>miMchFre := i\<rparr>) = nxt s"
  "nxt (s\<lparr>miRlb := i\<rparr>) = nxt s" "nxt (s\<lparr>miHshRpr := i\<rparr>) = nxt s"
  "nxt (s\<lparr>mpBst := a\<rparr>) = nxt s" "nxt (s\<lparr>mzOld := i\<rparr>) = nxt s"
  by (simp_all add: nxt_def fun_eq_iff)

lemma mch_fields [simp]:
  "mch (s\<lparr>mpOld := a\<rparr>) = mch s" "mch (s\<lparr>mpNew := a\<rparr>) = mch s" "mch (s\<lparr>mpLst := a\<rparr>) = mch s"
  "mch (s\<lparr>mpCol := c\<rparr>) = mch s" "mch (s\<lparr>mpGld := c\<rparr>) = mch s" "mch (s\<lparr>miMchFre := i\<rparr>) = mch s"
  "mch (s\<lparr>miRlb := i\<rparr>) = mch s" "mch (s\<lparr>miHshRpr := i\<rparr>) = mch s"
  "mch (s\<lparr>mpBst := a\<rparr>) = mch s" "mch (s\<lparr>mzOld := i\<rparr>) = mch s"
  by (simp_all add: mch_def fun_eq_iff)

lemma cview_fields [simp]:
  "cview (s\<lparr>mpOld := a\<rparr>) = cview s" "cview (s\<lparr>mpNew := a\<rparr>) = cview s" "cview (s\<lparr>mpLst := a\<rparr>) = cview s"
  "cview (s\<lparr>miMchFre := i\<rparr>) = cview s"
  "cview (s\<lparr>miRlb := i\<rparr>) = cview s" "cview (s\<lparr>miHshRpr := i\<rparr>) = cview s"
  "cview (s\<lparr>mpBst := a\<rparr>) = cview s" "cview (s\<lparr>mzOld := i\<rparr>) = cview s"
  by (simp_all add: cview_def)

lemma zview_fields [simp]:
  "zview (s\<lparr>mpOld := a\<rparr>) = zview s" "zview (s\<lparr>mpNew := a\<rparr>) = zview s" "zview (s\<lparr>mpLst := a\<rparr>) = zview s"
  "zview (s\<lparr>mpCol := c\<rparr>) = zview s" "zview (s\<lparr>mpGld := c\<rparr>) = zview s"
  "zview (s\<lparr>miRlb := i\<rparr>) = zview s" "zview (s\<lparr>miHshRpr := i\<rparr>) = zview s"
  "zview (s\<lparr>mpBst := a\<rparr>) = zview s" "zview (s\<lparr>mzOld := i\<rparr>) = zview s"
  by (simp_all add: zview_def)

lemma kview_fields [simp]:
  "kview (s\<lparr>mpOld := a\<rparr>) = kview s" "kview (s\<lparr>mpNew := a\<rparr>) = kview s" "kview (s\<lparr>mpLst := a\<rparr>) = kview s"
  "kview (s\<lparr>miRlb := i\<rparr>) = kview s" "kview (s\<lparr>miHshRpr := i\<rparr>) = kview s"
  "kview (s\<lparr>mpBst := a\<rparr>) = kview s" "kview (s\<lparr>mzOld := i\<rparr>) = kview s"
  by (simp_all add: kview_def)

lemma kview_upd_keep:
  "(\<And>r. ipCol (f r) = ipCol r \<and> ipGld (f r) = ipGld r \<and> iiCnt (f r) = iiCnt r) \<Longrightarrow> kview (upd s q f) = kview s"
  by (simp add: kview_def cview_upd_keep)

lemma kview_upd_nxt [simp]: "kview (upd s q (\<lambda>r. r\<lparr>ipNxt := v\<rparr>)) = kview s"
  by (rule kview_upd_keep) simp

lemma kview_upd_cmp [simp]: "kview (upd s q (\<lambda>r. r\<lparr>iiCmp := v\<rparr>)) = kview s"
  by (rule kview_upd_keep) simp

lemma jview_upd_keep: "(\<And>r. ipNxt (f r) = ipNxt r) \<Longrightarrow> jview (upd s q f) = jview s"
  by (simp add: jview_def lview_upd_keep)

lemma cview_upd_nxt [simp]: "cview (upd s q (\<lambda>r. r\<lparr>ipNxt := v\<rparr>)) = cview s"
  by (rule cview_upd_keep) simp

lemma cview_upd_cmp [simp]: "cview (upd s q (\<lambda>r. r\<lparr>iiCmp := v\<rparr>)) = cview s"
  by (rule cview_upd_keep) simp

subsection \<open>The two lists\<close>

lemma linked_cong: "(\<And>x. x \<in> set (butlast xs) \<Longrightarrow> nx' x = nx x) \<Longrightarrow> linked nx' xs = linked nx xs"
  by (induction nx xs rule: linked.induct) auto

lemma linked_Cons: "linked nx (x # xs) = ((xs = [] \<or> nx x = first xs) \<and> linked nx xs)"
  by (cases xs) auto

lemma linked_append:
  "linked nx (xs @ ys) = (linked nx xs \<and> linked nx ys \<and> (xs = [] \<or> ys = [] \<or> nx (last xs) = first ys))"
proof (induction nx xs rule: linked.induct)
  case (1 nx) show ?case by simp
next
  case (2 nx x) show ?case by (auto simp: linked_Cons)
next
  case (3 nx x y ys') thus ?case by auto
qed

lemma first_append: "first (xs @ ys) = (if xs = [] then first ys else first xs)"
  by (cases xs) auto

lemma first_None [simp]: "(first xs = None) = (xs = [])" "(None = first xs) = (xs = [])"
  by (cases xs; auto)+

lemma first_Some: "first xs = Some x \<Longrightarrow> \<exists>xs'. xs = x # xs'"
  by (cases xs) auto

lemma last_notin_butlast: "distinct xs \<Longrightarrow> xs \<noteq> [] \<Longrightarrow> last xs \<notin> set (butlast xs)"
  by (metis append_butlast_last_id distinct.simps(2) distinct_append distinct_singleton
        disjoint_iff list.set_intros(1))

lemma in_butlast_set: "x \<in> set (butlast xs) \<Longrightarrow> x \<in> set xs"
  by (rule in_set_butlastD)

lemma addNew_lists:
  assumes l: "lists_on S s old new" and p: "p \<notin> S" "p < length (msMch s)"
  shows "lists_on (insert p S) (addNew s p) old (new @ [p])"
proof (cases new)
  case Nil
  with l have n: "mpNew s = None" by (simp add: lists_on_def newList_def)
  hence a: "addNew s p = s\<lparr>mpNew := Some p, mpLst := Some p\<rparr>" by (simp add: addNew_def)
  from l p Nil show ?thesis unfolding a
    by (auto simp: lists_on_def oldList_def newList_def)
next
  case (Cons x xs)
  let ?l = "last new"
  from l Cons have n: "mpNew s = Some x" "mpLst s = Some ?l" "new \<noteq> []"
    by (auto simp: lists_on_def newList_def)
  from l n have ll: "?l < length (msMch s)" "?l \<in> set new"
    by (auto simp: lists_on_def newList_def list_all_iff)
  from n have a: "addNew s p = (upd s ?l (\<lambda>r. r\<lparr>ipNxt := Some p\<rparr>))\<lparr>mpLst := Some p\<rparr>"
    by (simp add: addNew_def)
  have nx: "nxt (addNew s p) = (nxt s)(?l := Some p)"
    unfolding a by (simp add: nxt_upd_set ll)
  from l have d: "distinct (old @ new)" "set (old @ new) = S" by (simp_all add: lists_on_def)
  from d ll have lo: "?l \<notin> set old" by auto
  from d n have lb: "?l \<notin> set (butlast new)" by (simp add: last_notin_butlast)
  have 1: "linked (nxt (addNew s p)) old = linked (nxt s) old"
    unfolding nx using lo by (intro linked_cong) (auto dest: in_set_butlastD)
  have 2: "linked (nxt (addNew s p)) new = linked (nxt s) new"
    unfolding nx using lb by (intro linked_cong) auto
  have 3: "old = [] \<or> nxt (addNew s p) (last old) = nxt s (last old)"
    unfolding nx using lo by (cases "old = []") (auto dest: last_in_set)
  from l have ol: "oldList s old" "newList s new" by (simp_all add: lists_on_def)
  have o': "oldList (addNew s p) old"
    using ol(1) 1 3 unfolding oldList_def by (auto simp: a)
  have n': "newList (addNew s p) (new @ [p])"
    using ol(2) 2 n p d unfolding newList_def
    by (auto simp: linked_append first_append nx) (auto simp: a)
  from d p o' n' show ?thesis by (auto simp: lists_on_def)
qed

lemma addNew_views [simp]: "kview (addNew s p) = kview s"
  by (simp_all add: addNew_def split: option.splits)

lemma pop_old:
  assumes l: "lists_on S s old new" and p: "mpOld s = Some p"
  shows "\<exists>old'. old = p # old' \<and> p \<in> S \<and> p < length (msMch s) \<and>
           lists_on (S - {p}) (s\<lparr>mpOld := ipNxt (mch s p)\<rparr>) old' new"
proof -
  from l p obtain old' where o: "old = p # old'"
    by (auto simp: lists_on_def oldList_def dest!: first_Some[OF sym])
  from l have ol: "oldList s old" "newList s new" "distinct (old @ new)" "set (old @ new) = S"
    by (simp_all add: lists_on_def)
  from ol(1) o have nx: "nxt s p = first old'"
    by (cases old') (auto simp: oldList_def)
  have "oldList (s\<lparr>mpOld := ipNxt (mch s p)\<rparr>) old'"
    using ol(1) o nx by (cases old') (auto simp: oldList_def nxt_mch)
  moreover have "newList (s\<lparr>mpOld := ipNxt (mch s p)\<rparr>) new"
    using ol(2) by (simp add: newList_def)
  moreover have "set (old' @ new) = S - {p}" using ol(3,4) o by auto
  moreover have "p \<in> S" "p < length (msMch s)" using ol(1,4) o by (auto simp: oldList_def)
  ultimately show ?thesis using o ol(3) by (auto simp: lists_on_def)
qed

lemma joinLists_lists:
  assumes l: "lists_on S s old new"
  shows "lists_on S (joinLists s) (new @ old) []"
proof (cases new)
  case Nil
  with l have "mpNew s = None" by (simp add: lists_on_def newList_def)
  hence "joinLists s = s" by (simp add: joinLists_def)
  with l Nil show ?thesis by simp
next
  case (Cons x xs)
  let ?l = "last new"
  let ?s = "joinLists s"
  from l Cons have n: "mpNew s = Some x" "mpLst s = Some ?l" "new \<noteq> []"
    by (auto simp: lists_on_def newList_def)
  from l n have ll: "?l < length (msMch s)" "?l \<in> set new"
    by (auto simp: lists_on_def newList_def list_all_iff)
  from n have a: "?s = (upd s ?l (\<lambda>r. r\<lparr>ipNxt := mpOld s\<rparr>))\<lparr>mpOld := mpNew s, mpNew := None, mpLst := None\<rparr>"
    by (simp add: joinLists_def)
  have nx: "nxt ?s = (nxt s)(?l := mpOld s)"
    unfolding a by (simp add: nxt_upd_set ll nxt_def fun_eq_iff upd_def)
  from l have d: "distinct (old @ new)" "set (old @ new) = S" by (simp_all add: lists_on_def)
  from d ll have lo: "?l \<notin> set old" by auto
  from d n have lb: "?l \<notin> set (butlast new)" by (simp add: last_notin_butlast)
  have 1: "linked (nxt ?s) old = linked (nxt s) old"
    unfolding nx using lo by (intro linked_cong) (auto dest: in_set_butlastD)
  have 2: "linked (nxt ?s) new = linked (nxt s) new"
    unfolding nx using lb by (intro linked_cong) auto
  have 3: "old = [] \<or> nxt ?s (last old) = nxt s (last old)"
    unfolding nx using lo by (cases "old = []") (auto dest: last_in_set)
  from l have ol: "oldList s old" "newList s new" by (simp_all add: lists_on_def)
  have f: "mpOld ?s = mpNew s" "mpNew ?s = None" "length (msMch ?s) = length (msMch s)"
    unfolding a by simp_all
  have o': "oldList ?s (new @ old)"
    using ol 1 2 3 n d unfolding oldList_def newList_def
    by (auto simp: linked_append first_append nx f last_append)
  have n': "newList ?s []" by (simp add: newList_def f)
  from d o' n' show ?thesis by (auto simp: lists_on_def)
qed

lemma joinLists_views [simp]: "kview (joinLists s) = kview s"
  by (simp_all add: joinLists_def split: option.splits)

lemma pushNew_lists:
  assumes l: "lists_on S s old new" and p: "p \<notin> S" "p < length (msMch s)"
  shows "lists_on (insert p S) (pushNew s p) old (p # new)"
proof -
  let ?s = "pushNew s p"
  have nx: "nxt ?s = (nxt s)(p := mpNew s)"
    unfolding pushNew_def using p by (auto simp: nxt_mch mch_upd fun_eq_iff)
  from l have d: "distinct (old @ new)" "set (old @ new) = S" by (simp_all add: lists_on_def)
  from l have ol: "oldList s old" "newList s new" by (simp_all add: lists_on_def)
  from d p have po: "p \<notin> set old" "p \<notin> set new" by auto
  have 1: "linked (nxt ?s) old = linked (nxt s) old"
    unfolding nx using po by (intro linked_cong) (auto dest: in_set_butlastD)
  have 2: "linked (nxt ?s) new = linked (nxt s) new"
    unfolding nx using po by (intro linked_cong) (auto dest: in_set_butlastD)
  have 3: "old = [] \<or> nxt ?s (last old) = nxt s (last old)"
    unfolding nx using po by (cases "old = []") (auto dest: last_in_set)
  have f: "mpOld ?s = mpOld s" "mpNew ?s = Some p" "length (msMch ?s) = length (msMch s)"
     "mpLst ?s = (if mpNew s = None then Some p else mpLst s)"
    unfolding pushNew_def by simp_all
  have o': "oldList ?s old"
    using ol 1 3 unfolding oldList_def by (auto simp: f)
  have n': "newList ?s (p # new)"
    using ol 2 p po unfolding newList_def
    by (auto simp: linked_Cons f nx)
  from d p o' n' show ?thesis by (auto simp: lists_on_def)
qed

lemma pushNew_views [simp]: "kview (pushNew s p) = kview s"
  by (simp_all add: pushNew_def)

lemma LS_I: "lists_on S s old new \<Longrightarrow> LS S s"
  by (auto simp: LS_def)

lemma lists_on_bound: "lists_on S s old new \<Longrightarrow> p \<in> S \<Longrightarrow> p < length (msMch s)"
  by (auto simp: lists_on_def oldList_def newList_def list_all_iff)

lemma nextold_old_inv:
  assumes "nextold_old s = Some s'"
  shows "(\<forall>old new. lists_on S s old new \<longrightarrow> LS S s') \<and> kview s' = kview s"
proof (rule nextold_old.raw_induct
    [where P = "\<lambda>s s'. (\<forall>old new. lists_on S s old new \<longrightarrow> LS S s') \<and> kview s' = kview s",
     OF _ assms], goal_cases)
  case (1 nextold_old' s s')
  show ?case
  proof (cases "mpOld s")
    case None
    with 1(2) show ?thesis by (auto intro: LS_I)
  next
    case (Some p)
    show ?thesis
    proof (cases "isOld2Reuse s p")
      case True
      with Some 1(2) show ?thesis by (auto intro: LS_I)
    next
      case False
      let ?s1 = "addNew (s\<lparr>mpOld := ipNxt (mch s p)\<rparr>) p"
      from False Some 1(2) have r: "nextold_old' ?s1 = Some s'" by simp
      note ih = 1(1)[OF r]
      have cz: "kview ?s1 = kview s"
        by simp
      have "LS S s'" if l: "lists_on S s old new" for old new
      proof -
        from pop_old[OF l Some] obtain old' where
          o: "old = p # old'" "p \<in> S" "p < length (msMch s)"
             "lists_on (S - {p}) (s\<lparr>mpOld := ipNxt (mch s p)\<rparr>) old' new" by blast
        from addNew_lists[OF o(4), of p] o(2,3)
        have "lists_on S ?s1 old' (new @ [p])" by (simp add: insert_absorb)
        with ih show ?thesis by blast
      qed
      with ih cz show ?thesis by simp
    qed
  qed
qed

lemma lists_on_upd_keep:
  "(\<And>r. ipNxt (f r) = ipNxt r) \<Longrightarrow> lists_on S (upd s q f) old new = lists_on S s old new"
  by (rule lists_on_lview) (simp add: lview_upd_keep)

lemma pop_new:
  assumes l: "lists_on S s old new" and p: "mpNew s = Some p"
    and t: "tl new = [] \<longrightarrow> nxt s p = None"
  shows "\<exists>rest. new = p # rest \<and> p \<in> S \<and> p < length (msMch s) \<and> nxt s p = first rest \<and>
           lists_on (S - {p}) (s\<lparr>mpNew := ipNxt (mch s p)\<rparr>) old rest"
proof -
  from l p obtain rest where o: "new = p # rest"
    by (auto simp: lists_on_def newList_def dest!: first_Some[OF sym])
  from l have ol: "oldList s old" "newList s new" "distinct (old @ new)" "set (old @ new) = S"
    by (simp_all add: lists_on_def)
  from ol(2) o t have nx: "nxt s p = first rest"
    by (cases rest) (auto simp: newList_def)
  have "newList (s\<lparr>mpNew := ipNxt (mch s p)\<rparr>) rest"
    using ol(2) o nx by (cases rest) (auto simp: newList_def nxt_mch)
  moreover have "oldList (s\<lparr>mpNew := ipNxt (mch s p)\<rparr>) old"
    using ol(1) by (simp add: oldList_def)
  moreover have "set (old @ rest) = S - {p}" using ol(3,4) o by auto
  moreover have "p \<in> S" "p < length (msMch s)" using ol(2,4) o by (auto simp: newList_def)
  ultimately show ?thesis using o ol(3) nx by (auto simp: lists_on_def)
qed

lemma pushOld_lists:
  assumes l: "lists_on S s old new" and p: "p \<notin> S" "p < length (msMch s)"
  shows "lists_on (insert p S) (pushOld s p) (p # old) new"
proof -
  let ?s = "pushOld s p"
  have nx: "nxt ?s = (nxt s)(p := mpOld s)"
    unfolding pushOld_def using p by (auto simp: nxt_mch mch_upd fun_eq_iff)
  from l have d: "distinct (old @ new)" "set (old @ new) = S" by (simp_all add: lists_on_def)
  from l have ol: "oldList s old" "newList s new" by (simp_all add: lists_on_def)
  from d p have po: "p \<notin> set old" "p \<notin> set new" by auto
  have 1: "linked (nxt ?s) old = linked (nxt s) old"
    unfolding nx using po by (intro linked_cong) (auto dest: in_set_butlastD)
  have 2: "linked (nxt ?s) new = linked (nxt s) new"
    unfolding nx using po by (intro linked_cong) (auto dest: in_set_butlastD)
  have 3: "old = [] \<or> nxt ?s (last old) = nxt s (last old)"
    unfolding nx using po by (cases "old = []") (auto dest: last_in_set)
  have f: "mpOld ?s = Some p" "mpNew ?s = mpNew s" "length (msMch ?s) = length (msMch s)"
     "mpLst ?s = mpLst s"
    unfolding pushOld_def by simp_all
  have n': "newList ?s new"
    using ol 2 unfolding newList_def by (auto simp: f)
  have o': "oldList ?s (p # old)"
    using ol 1 3 p po unfolding oldList_def
    by (auto simp: linked_Cons f nx)
  from d p o' n' show ?thesis by (auto simp: lists_on_def)
qed

lemma pushOld_views [simp]: "kview (pushOld s p) = kview s"
  by (simp_all add: pushOld_def)

lemma addNew_nxt_self:
  assumes l: "lists_on S s old new" and p: "p \<notin> S"
  shows "nxt (addNew s p) p = nxt s p"
proof (cases "mpNew s")
  case None
  thus ?thesis by (simp add: addNew_def)
next
  case (Some x)
  with l have "mpLst s = Some (last new)" "new \<noteq> []"
    by (auto simp: lists_on_def newList_def)
  moreover with l p have "last new \<noteq> p" by (auto simp: lists_on_def dest: last_in_set)
  ultimately show ?thesis using Some
    by (auto simp: addNew_def nxt_mch mch_upd)
qed

lemma addNew_mpNew: "mpNew (addNew s p) = (if mpNew s = None then Some p else mpNew s)"
  by (auto simp: addNew_def split: option.splits)

lemma nextold_new_inv:
  assumes "nextold_new s lpCur = Some s'"
  shows "(Jnew S s lpCur \<longrightarrow> LS S s') \<and> kview s' = kview s"
proof (rule nextold_new.raw_induct
    [where P = "\<lambda>s lpCur s'. (Jnew S s lpCur \<longrightarrow> LS S s') \<and> kview s' = kview s",
     OF _ assms], goal_cases)
  case (1 f s lpCur s')
  show ?case
  proof (cases lpCur)
    case None
    with 1(2) show ?thesis by (auto simp: Jnew_def intro: LS_I)
  next
    case (Some p)
    show ?thesis
    proof (cases "iiCmp (mch s p) \<noteq> CMPINV")
      case True
      with Some 1(2) show ?thesis by (auto simp: Jnew_def intro: LS_I)
    next
      case False
      let ?sa = "s\<lparr>mpNew := ipNxt (mch s p)\<rparr>"
      let ?sb = "upd ?sa p (\<lambda>r. r\<lparr>iiCmp := 0\<rparr>)"
      let ?s2 = "addNew ?sb p"
      have pop: "\<exists>rest. new = p # rest \<and> p \<in> S \<and> p < length (msMch s) \<and> nxt s p = first rest \<and>
           lists_on (S - {p}) ?sa [] rest"
        if l: "lists_on S s [] new" and j: "lpCur = mpNew s"
              "nxt s (last new) = None \<or> nxt s (last new) = mpNew s \<and> 2 \<le> length new" for new
      proof -
        from j Some have m: "mpNew s = Some p" by simp
        with l obtain r where r: "new = p # r"
          by (auto simp: lists_on_def newList_def dest!: first_Some[OF sym])
        with j(2) have "tl new = [] \<longrightarrow> nxt s p = None" by auto
        from pop_new[OF l m this] show ?thesis .
      qed
      show ?thesis
      proof (cases "iiCnt (mch s p) > 1 \<and> izNew (mch s p) > izTst (mch s p)")
        case True
        with False Some 1(2) have r: "f ?s2 (ipNxt (mch ?s2 p)) = Some s'" by simp
        note ih = 1(1)[OF r]
        have "LS S s'" if J: "Jnew S s lpCur"
        proof -
          from J Some obtain new where l: "lists_on S s [] new" and j: "lpCur = mpNew s"
              "nxt s (last new) = None \<or> nxt s (last new) = mpNew s \<and> 2 \<le> length new"
            by (auto simp: Jnew_def)
          from pop[OF l j] obtain rest where
            o: "new = p # rest" "p \<in> S" "p < length (msMch s)" "nxt s p = first rest"
               "lists_on (S - {p}) ?sa [] rest" by blast
          from o(5) have lb: "lists_on (S - {p}) ?sb [] rest"
            by (simp add: lists_on_upd_keep)
          from addNew_lists[OF lb, of p] o(2,3)
          have l2: "lists_on S ?s2 [] (rest @ [p])" by (simp add: insert_absorb)
          have nb: "nxt ?sb = nxt s" by (simp add: nxt_upd_keep)
          have n2: "nxt ?s2 p = first rest"
            using addNew_nxt_self[OF lb, of p] o(4) nb by simp
          have m2: "mpNew ?s2 = (if rest = [] then Some p else first rest)"
            using o(4) by (simp add: addNew_mpNew nxt_mch)
          have "Jnew S ?s2 (ipNxt (mch ?s2 p))"
            unfolding Jnew_def using l2 n2 m2
            by (intro exI[of _ "rest @ [p]"]) (auto simp: nxt_mch[symmetric] Suc_le_eq)
          with ih show ?thesis by simp
        qed
        moreover have "kview ?s2 = kview s" by simp
        ultimately show ?thesis using ih by simp
      next
        case c: False
        with False Some 1(2) have r: "s' = (upd ?sa p (\<lambda>r. r\<lparr>ipNxt := mpOld s\<rparr>))\<lparr>mpOld := Some p\<rparr>"
          by auto
        hence r': "s' = pushOld ?sa p" by (simp add: pushOld_def)
        have "LS S s'" if J: "Jnew S s lpCur"
        proof -
          from J Some obtain new where l: "lists_on S s [] new" and j: "lpCur = mpNew s"
              "nxt s (last new) = None \<or> nxt s (last new) = mpNew s \<and> 2 \<le> length new"
            by (auto simp: Jnew_def)
          from pop[OF l j] obtain rest where
            o: "new = p # rest" "p \<in> S" "p < length (msMch s)" "nxt s p = first rest"
               "lists_on (S - {p}) ?sa [] rest" by blast
          from pushOld_lists[OF o(5), of p] o(2,3)
          have "lists_on S s' [p] rest" by (simp add: insert_absorb r')
          thus ?thesis by (rule LS_I)
        qed
        moreover have "kview s' = kview s" by (simp add: r')
        ultimately show ?thesis by simp
      qed
    qed
  qed
qed

lemma nextold_inv:
  assumes n: "nextold s = Some (b, s')"
  shows "(LS S s \<longrightarrow> LS S s') \<and> kview s' = kview s"
proof -
  from n obtain s1 s2 where
    1: "nextold_old s = Some s1" and
    2: "(if mpOld s1 = None \<and> mpNew s1 \<noteq> None
         then nextold_new (upd s1 (the (mpLst s1)) (\<lambda>r. r\<lparr>ipNxt := None\<rparr>)) (mpNew s1)
         else Some s1) = Some s2" and
    3: "s' = s2"
    by (auto simp: nextold_def split: Option.bind_splits)
  note i1 = nextold_old_inv[OF 1, of S]
  show ?thesis
  proof (cases "mpOld s1 = None \<and> mpNew s1 \<noteq> None")
    case False
    with 2 3 have "s' = s1" by auto
    with i1 show ?thesis by (auto simp: LS_def)
  next
    case True
    let ?t = "upd s1 (the (mpLst s1)) (\<lambda>r. r\<lparr>ipNxt := None\<rparr>)"
    from True 2 3 have r: "nextold_new ?t (mpNew s1) = Some s'" by simp
    note i2 = nextold_new_inv[OF r, of S]
    have "LS S s'" if "LS S s"
    proof -
      from that i1 obtain old new where l: "lists_on S s1 old new" by (auto simp: LS_def)
      with True have o: "old = []" by (auto simp: lists_on_def oldList_def)
      from l True have nn: "new \<noteq> []" "mpLst s1 = Some (last new)"
        by (auto simp: lists_on_def newList_def)
      from l nn have ll: "last new < length (msMch s1)"
        by (auto simp: lists_on_def newList_def list_all_iff)
      have nx: "nxt ?t = (nxt s1)(last new := None)"
        by (simp add: nn nxt_upd_set ll)
      from l have d: "distinct new" by (simp add: lists_on_def)
      with nn have lb: "last new \<notin> set (butlast new)" by (simp add: last_notin_butlast)
      have "linked (nxt ?t) new = linked (nxt s1) new"
        unfolding nx using lb by (intro linked_cong) auto
      with l o have "lists_on S ?t [] new"
        by (auto simp: lists_on_def oldList_def newList_def)
      moreover have "nxt ?t (last new) = None" by (simp add: nx)
      ultimately have "Jnew S ?t (mpNew s1)"
        unfolding Jnew_def by (intro exI[of _ new]) simp
      with i2 show ?thesis by simp
    qed
    moreover have "kview ?t = kview s1" by simp
    ultimately show ?thesis using i1 i2 by simp
  qed
qed

subsection \<open>The two hash arrays\<close>

lemma cmod_less: "0 < b \<Longrightarrow> cmod a b < b"
proof -
  assume b: "0 < b"
  show ?thesis
  proof (cases "0 \<le> a")
    case True
    with b have "cmod a b = a mod b"
      by (cases "a = 0") (simp_all add: cmod_def cdiv_def minus_div_mult_eq_mod)
    with b show ?thesis by simp
  next
    case False
    with b have "cmod a b = - ((- a) mod b)"
      by (simp add: cmod_def cdiv_def algebra_simps minus_div_mult_eq_mod[symmetric])
    moreover from b have "0 \<le> (- a) mod b" by simp
    ultimately show ?thesis using b by linarith
  qed
qed

lemma idx_bound:
  assumes "sizes s"
  shows "idxCol s d < length (mpCol s)" "idxGld s x < length (mpGld s)"
  using assms cmod_less[of "miMchPme s" "\<bar>d\<bar>"] cmod_less[of "miMchPme s" x]
  by (auto simp: sizes_def idxCol_def idxGld_def)

lemma okp_simps [simp]: "okp A None" "okp A (Some p) = (p \<in> A)"
  by (simp_all add: okp_def)

lemma okp_mono: "okp A q \<Longrightarrow> okp (insert p A) q"
  by (cases q) auto

lemma chains_on_head:
  "chains_on A s \<Longrightarrow> i < length (mpCol s) \<Longrightarrow> okp A (mpCol s ! i)"
  "chains_on A s \<Longrightarrow> j < length (mpGld s) \<Longrightarrow> okp A (mpGld s ! j)"
  by (auto simp: chains_on_def)

lemma chains_on_rec:
  "chains_on A s \<Longrightarrow> p \<in> A \<Longrightarrow> okp A (ipCol (mch s p)) \<and> okp A (ipGld (mch s p)) \<and> 1 \<le> iiCnt (mch s p)"
  by (auto simp: chains_on_def)

lemma chains_on_upd:
  assumes c: "chains_on A s"
    and f: "q \<in> A \<Longrightarrow> okp A (ipCol (f (mch s q))) \<and> okp A (ipGld (f (mch s q))) \<and> 1 \<le> iiCnt (f (mch s q))"
  shows "chains_on A (upd s q f)"
  using c f unfolding chains_on_def by (auto simp: mch_upd)

lemma findCol_alloc:
  assumes "findCol s d q = Some r"
  shows "chains_on A s \<longrightarrow> okp A q \<longrightarrow> okp A r"
proof (rule findCol.raw_induct
    [where P = "\<lambda>s d q r. chains_on A s \<longrightarrow> okp A q \<longrightarrow> okp A r", OF _ assms], goal_cases)
  case (1 f s d q r)
  show ?case
  proof (cases q)
    case None
    with 1(2) show ?thesis by auto
  next
    case (Some x)
    show ?thesis
    proof (cases "izDlt (mch s x) = d")
      case True
      with Some 1(2) show ?thesis by auto
    next
      case False
      with Some 1(2) have "f s d (ipCol (mch s x)) = Some r" by simp
      from 1(1)[OF this] Some show ?thesis by (auto dest: chains_on_rec)
    qed
  qed
qed

lemma findGld_alloc:
  assumes "findGld s d q = Some r"
  shows "chains_on A s \<longrightarrow> okp A q \<longrightarrow> okp A r"
proof (rule findGld.raw_induct
    [where P = "\<lambda>s d q r. chains_on A s \<longrightarrow> okp A q \<longrightarrow> okp A r", OF _ assms], goal_cases)
  case (1 f s d q r)
  show ?case
  proof (cases q)
    case None
    with 1(2) show ?thesis by auto
  next
    case (Some x)
    show ?thesis
    proof (cases "izOrg (mch s x) = d")
      case True
      with Some 1(2) show ?thesis by auto
    next
      case False
      with Some 1(2) have "f s d (ipGld (mch s x)) = Some r" by simp
      from 1(1)[OF this] Some show ?thesis by (auto dest: chains_on_rec)
    qed
  qed
qed

lemma jview_fields [simp]:
  "jview (s\<lparr>mpBst := a\<rparr>) = jview s" "jview (s\<lparr>mzOld := i\<rparr>) = jview s"
  "jview (s\<lparr>miRlb := i\<rparr>) = jview s" "jview (s\<lparr>miHshRpr := i\<rparr>) = jview s"
  by (simp_all add: jview_def lview_def zview_def)

lemma jview_heads [simp]:
  "jview (s\<lparr>mpCol := (mpCol s)[i := v]\<rparr>) = jview s"
  "jview (s\<lparr>mpGld := (mpGld s)[i := v]\<rparr>) = jview s"
  by (simp_all add: jview_def lview_def zview_def)

lemma chains_on_set_head:
  assumes "chains_on A s" "okp A v"
  shows "chains_on A (s\<lparr>mpCol := (mpCol s)[i := v]\<rparr>)" "chains_on A (s\<lparr>mpGld := (mpGld s)[i := v]\<rparr>)"
  using assms unfolding chains_on_def
  by (auto dest!: subsetD[OF set_update_subset_insert])

lemma delGld_loop_inv:
  assumes "delGld_loop s ap q = Some s'"
  shows "(chains_on A s \<longrightarrow> ap \<in> A \<longrightarrow> okp A q \<longrightarrow> chains_on A s') \<and> jview s' = jview s"
proof (rule delGld_loop.raw_induct
    [where P = "\<lambda>s ap q s'. (chains_on A s \<longrightarrow> ap \<in> A \<longrightarrow> okp A q \<longrightarrow> chains_on A s') \<and> jview s' = jview s",
     OF _ assms], goal_cases)
  case (1 f s ap q s')
  show ?case
  proof (cases q)
    case None
    with 1(2) show ?thesis by auto
  next
    case (Some x)
    show ?thesis
    proof (cases "ipGld (mch s x) = Some ap")
      case True
      with Some 1(2) have s': "s' = upd s x (\<lambda>r. r\<lparr>ipGld := ipGld (mch s ap)\<rparr>)" by auto
      have "jview s' = jview s" unfolding s' by (rule jview_upd_keep) simp
      moreover have "chains_on A s'" if "chains_on A s" "ap \<in> A"
        unfolding s' using that chains_on_rec[OF that] chains_on_rec[OF that(1), of x]
        by (intro chains_on_upd) auto
      ultimately show ?thesis by simp
    next
      case False
      with Some 1(2) have "f s ap (ipGld (mch s x)) = Some s'" by simp
      from 1(1)[OF this] Some show ?thesis by (auto dest: chains_on_rec)
    qed
  qed
qed

lemma delCol_loop_inv:
  assumes "delCol_loop s ap q = Some s'"
  shows "(chains_on A s \<longrightarrow> ap \<in> A \<longrightarrow> okp A q \<longrightarrow> chains_on A s') \<and> jview s' = jview s"
proof (rule delCol_loop.raw_induct
    [where P = "\<lambda>s ap q s'. (chains_on A s \<longrightarrow> ap \<in> A \<longrightarrow> okp A q \<longrightarrow> chains_on A s') \<and> jview s' = jview s",
     OF _ assms], goal_cases)
  case (1 f s ap q s')
  show ?case
  proof (cases q)
    case None
    with 1(2) show ?thesis by auto
  next
    case (Some x)
    show ?thesis
    proof (cases "ipCol (mch s x) = Some ap")
      case True
      with Some 1(2) have s': "s' = upd s x (\<lambda>r. r\<lparr>ipCol := ipCol (mch s ap)\<rparr>)" by auto
      have "jview s' = jview s" unfolding s' by (rule jview_upd_keep) simp
      moreover have "chains_on A s'" if "chains_on A s" "ap \<in> A"
        unfolding s' using that chains_on_rec[OF that] chains_on_rec[OF that(1), of x]
        by (intro chains_on_upd) auto
      ultimately show ?thesis by simp
    next
      case False
      with Some 1(2) have "f s ap (ipCol (mch s x)) = Some s'" by simp
      from 1(1)[OF this] Some show ?thesis by (auto dest: chains_on_rec)
    qed
  qed
qed

lemma delGld_inv:
  assumes d: "delGld s ap = Some s'" and c: "chains_on A s" and z: "sizes s" and a: "ap \<in> A"
  shows "chains_on A s' \<and> jview s' = jview s"
proof (cases "mpGld s ! idxGld s (izOrg (mch s ap)) = Some ap")
  case True
  with d have s': "s' = s\<lparr>mpGld := (mpGld s)[idxGld s (izOrg (mch s ap)) := ipGld (mch s ap)]\<rparr>"
    by (auto simp: delGld_def Let_def)
  show ?thesis unfolding s' using chains_on_set_head(2)[OF c] chains_on_rec[OF c a] by simp
next
  case False
  with d have "delGld_loop s ap (mpGld s ! idxGld s (izOrg (mch s ap))) = Some s'"
    by (auto simp: delGld_def Let_def)
  from delGld_loop_inv[OF this, of A] c a chains_on_head(2)[OF c idx_bound(2)[OF z]]
  show ?thesis by simp
qed

lemma delCol_inv:
  assumes d: "delCol s ap = Some s'" and c: "chains_on A s" and z: "sizes s" and a: "ap \<in> A"
  shows "chains_on A s' \<and> jview s' = jview s"
proof (cases "mpCol s ! idxCol s (izDlt (mch s ap)) = Some ap")
  case True
  with d have s': "s' = s\<lparr>mpCol := (mpCol s)[idxCol s (izDlt (mch s ap)) := ipCol (mch s ap)]\<rparr>"
    by (auto simp: delCol_def Let_def)
  show ?thesis unfolding s' using chains_on_set_head(1)[OF c] chains_on_rec[OF c a] by simp
next
  case False
  with d have "delCol_loop s ap (mpCol s ! idxCol s (izDlt (mch s ap))) = Some s'"
    by (auto simp: delCol_def Let_def)
  from delCol_loop_inv[OF this, of A] c a chains_on_head(1)[OF c idx_bound(1)[OF z]]
  show ?thesis by simp
qed

lemma allocd_bound: "sizes s \<Longrightarrow> p \<in> allocd s \<Longrightarrow> p < length (msMch s)"
  by (auto simp: sizes_def allocd_def)

lemma add_join_inv:
  assumes j: "add_join t s org new = Some (lp, s')" and c: "chains_on A s" and z: "sizes s"
    and b: "\<And>p. p \<in> A \<Longrightarrow> p < length (msMch s)"
  shows "chains_on A s' \<and> jview s' = jview s \<and> (\<forall>p. lp = Some p \<longrightarrow> p \<in> A \<and> 2 \<le> iiCnt (mch s' p))"
proof -
  let ?d = "org - new"
  from j obtain c0 where fc: "findCol s ?d (mpCol s ! idxCol s ?d) = Some c0"
    by (auto simp: add_join_def split: Option.bind_splits)
  from findCol_alloc[OF fc, of A] c chains_on_head(1)[OF c idx_bound(1)[OF z]]
  have oc: "okp A c0" by simp
  show ?thesis
  proof (cases c0)
    case (Some p)
    with oc have pA: "p \<in> A" by simp
    from j fc Some obtain s1 where
      d: "(if iiCnt (mch s p) = 1 then delGld s p else Some s) = Some s1" and
      r: "lp = Some p" "s' = upd s1 p (\<lambda>r. r\<lparr>iiCnt := iiCnt r + 1, izNew := new\<rparr>)"
      by (auto simp: add_join_def split: Option.bind_splits if_splits)
    have 1: "chains_on A s1 \<and> jview s1 = jview s"
    proof (cases "iiCnt (mch s p) = 1")
      case True
      with d have "delGld s p = Some s1" by simp
      from delGld_inv[OF this c z pA] show ?thesis .
    next
      case False
      with d c show ?thesis by simp
    qed
    hence l1: "p < length (msMch s1)" using b[OF pA] jview_len[of s1 s] by simp
    from 1 chains_on_rec[of A s1 p] pA have "chains_on A s'"
      unfolding r by (intro chains_on_upd) auto
    moreover have "jview s' = jview s1" unfolding r by (rule jview_upd_keep) simp
    moreover have "2 \<le> iiCnt (mch s' p)"
      using 1 chains_on_rec[of A s1 p] pA l1 unfolding r by (auto simp: mch_upd)
    ultimately show ?thesis using 1 r pA by simp
  next
    case None
    from j fc None obtain g where fg: "findGld s org (mpGld s ! idxGld s org) = Some g"
      by (auto simp: add_join_def split: Option.bind_splits)
    from findGld_alloc[OF fg, of A] c chains_on_head(2)[OF c idx_bound(2)[OF z]]
    have og: "okp A g" by simp
    show ?thesis
    proof (cases g)
      case gN: None
      with j fc fg None have "lp = None" "s' = s" by (auto simp: add_join_def)
      with c show ?thesis by simp
    next
      case (Some p)
      with og have pA: "p \<in> A" by simp
      let ?f = "\<lambda>r. r\<lparr>iiCnt := iiCnt r + 1, izNew := new,
                         iiGld := (if iiGld r = 0
                                   then (if new \<le> izBeg r + SMPSZE t then new - izBeg r
                                         else SMPSZE t)
                                   else iiGld r)\<rparr>"
      from j fc fg None Some obtain s1 where
        d: "(if iiCnt (mch s p) = 1 then delCol s p else Some s) = Some s1" and
        r: "lp = Some p" "s' = upd s1 p ?f"
        by (auto simp: add_join_def split: Option.bind_splits if_splits)
      have 1: "chains_on A s1 \<and> jview s1 = jview s"
      proof (cases "iiCnt (mch s p) = 1")
        case True
        with d have "delCol s p = Some s1" by simp
        from delCol_inv[OF this c z pA] show ?thesis .
      next
        case False
        with d c show ?thesis by simp
      qed
      hence l1: "p < length (msMch s1)" using b[OF pA] jview_len[of s1 s] by simp
      from 1 chains_on_rec[of A s1 p] pA have "chains_on A s'"
        unfolding r by (intro chains_on_upd) auto
      moreover have "jview s' = jview s1" unfolding r by (rule jview_upd_keep) simp
      moreover have "2 \<le> iiCnt (mch s' p)"
        using 1 chains_on_rec[of A s1 p] pA l1 unfolding r by (auto simp: mch_upd)
      ultimately show ?thesis using 1 r pA by simp
    qed
  qed
qed

lemma idx_upd [simp]: "idxCol (upd s q f) d = idxCol s d" "idxGld (upd s q f) x = idxGld s x"
  by (simp_all add: idxCol_def idxGld_def)

lemma add_fill_inv:
  assumes c: "chains_on A s" and z: "sizes s" and p: "p < length (msMch s)"
  shows "chains_on (insert p A) (add_fill s p org new) \<and> jview (add_fill s p org new) = jview s \<and>
         iiCnt (mch (add_fill s p org new) p) = 1"
proof -
  let ?ic = "idxCol s (org - new)"
  let ?ig = "idxGld s org"
  let ?s = "add_fill s p org new"
  have hc: "okp A (mpCol s ! ?ic)" "okp A (mpGld s ! ?ig)"
    using chains_on_head[OF c] idx_bound[OF z] by auto
  have m: "mch ?s q = (if q = p then (mch s p)\<lparr>izOrg := org, izNew := new, izBeg := new,
                          izDlt := org - new, iiCnt := 1, iiGld := 0, iiCmp := 0, izTst := -1,
                          ipCol := mpCol s ! ?ic, ipGld := mpGld s ! ?ig\<rparr> else mch s q)" for q
    using p by (simp add: add_fill_def Let_def mch_upd mch_def[of "_\<lparr>mpCol := _\<rparr>"] mch_def[of "_\<lparr>mpGld := _\<rparr>"])
  have h: "mpCol ?s = (mpCol s)[?ic := Some p]" "mpGld ?s = (mpGld s)[?ig := Some p]"
    by (simp_all add: add_fill_def Let_def)
  have 1: "chains_on (insert p A) ?s"
    unfolding chains_on_def h
    using c hc by (auto simp: m chains_on_def intro: okp_mono dest!: subsetD[OF set_update_subset_insert])
  have 2: "jview ?s = jview s"
    by (simp add: add_fill_def Let_def jview_def lview_def zview_def nxt_upd_keep)
  from 1 2 m[of p] show ?thesis by simp
qed

subsection \<open>add, cleanup and getbest keep the invariant\<close>

lemma lists_on_sview: "sview s' = sview s \<Longrightarrow> lists_on S s' old new = lists_on S s old new"
  using sviewD[of s' s] lists_on_lview[of s' s] by (simp only:)

lemma sview_cnt:
  assumes "sview s' = sview s"
  shows "iiCnt (mch s' p) = iiCnt (mch s p)"
proof -
  from sviewD[OF assms] have "cview s' = cview s" by blast
  thus ?thesis by (rule cview_cnt)
qed

lemma add_eval_SomeD:
  assumes e: "add_eval gO gN s p red = Some (ret, s')"
    and T: "iiCnt (mch s p) = 1 \<or> iiCmp (mch s p) = CMPSKP"
  shows "\<exists>r s1. isGoodOrBest gO gN
                  (if iiCmp (mch s p) = CMPSKP then upd s p (\<lambda>r. r\<lparr>iiCmp := 0\<rparr>) else s) red p
                = Some (r, s1) \<and>
           (s' = (if iiCnt (mch (upd (s1\<lparr>miHshRpr := miHshRpr s1 + 1\<rparr>) p (\<lambda>r. r\<lparr>iiCmp := CMPINV\<rparr>)) p) = 1
                  then pushNew (upd (s1\<lparr>miHshRpr := miHshRpr s1 + 1\<rparr>) p (\<lambda>r. r\<lparr>iiCmp := CMPINV\<rparr>)) p
                  else upd (s1\<lparr>miHshRpr := miHshRpr s1 + 1\<rparr>) p (\<lambda>r. r\<lparr>iiCmp := CMPINV\<rparr>)) \<or>
            s' = (if iiCnt (mch s1 p) = 1 then addNew s1 p else s1))"
  using e unfolding add_eval_def
  apply (simp only: bind_eq_Some_conv T if_True split_paired_Ex prod.case)
  apply (elim exE conjE)
  subgoal for a b aa ba
    apply (rule exI[of _ aa], rule exI[of _ ba])
    apply (rule conjI, assumption)
    apply (cases "aa = Invalid \<and> izNew (mch ba p) \<le> izTst (mch ba p)")
     apply (rule disjI1)
     apply (clarsimp simp: Let_def pushNew_def)
    apply (rule disjI2)
    apply (clarsimp simp: Let_def)
    done
  done

lemma add_eval_cases:
  assumes e: "add_eval gO gN s p red = Some (ret, s')"
  shows "(iiCnt (mch s p) \<noteq> 1 \<and> s' = s) \<or>
         (\<exists>s2. sview s2 = sview s \<and>
            (s' = (if iiCnt (mch s p) = 1 then pushNew s2 p else s2) \<or>
             s' = (if iiCnt (mch s p) = 1 then addNew s2 p else s2)))"
proof (cases "iiCnt (mch s p) = 1 \<or> iiCmp (mch s p) = CMPSKP")
  case False
  with e have "s' = s" unfolding add_eval_def
    by (simp only: if_False bind.bind_lunit prod.case option.inject prod.inject)
  with False show ?thesis by simp
next
  case True
  let ?s0 = "if iiCmp (mch s p) = CMPSKP then upd s p (\<lambda>r. r\<lparr>iiCmp := 0\<rparr>) else s"
  have v0: "sview ?s0 = sview s" by (simp add: sview_upd_keep)
  from add_eval_SomeD[OF e True] obtain r s1 where
    g: "isGoodOrBest gO gN ?s0 red p = Some (r, s1)" and
    s': "s' = (if iiCnt (mch (upd (s1\<lparr>miHshRpr := miHshRpr s1 + 1\<rparr>) p (\<lambda>r. r\<lparr>iiCmp := CMPINV\<rparr>)) p) = 1
                  then pushNew (upd (s1\<lparr>miHshRpr := miHshRpr s1 + 1\<rparr>) p (\<lambda>r. r\<lparr>iiCmp := CMPINV\<rparr>)) p
                  else upd (s1\<lparr>miHshRpr := miHshRpr s1 + 1\<rparr>) p (\<lambda>r. r\<lparr>iiCmp := CMPINV\<rparr>)) \<or>
            s' = (if iiCnt (mch s1 p) = 1 then addNew s1 p else s1)"
    by blast
  from isGoodOrBest_sview[OF g] v0 have v1: "sview s1 = sview s" by simp
  let ?s2 = "upd (s1\<lparr>miHshRpr := miHshRpr s1 + 1\<rparr>) p (\<lambda>r. r\<lparr>iiCmp := CMPINV\<rparr>)"
  have v2: "sview ?s2 = sview s" using v1 by (simp add: sview_upd_keep)
  have c1: "iiCnt (mch s1 p) = iiCnt (mch s p)"
    by (rule sview_cnt[OF v1])
  have c2: "iiCnt (mch ?s2 p) = iiCnt (mch s p)"
    by (rule sview_cnt[OF v2])
  from s' have "s' = (if iiCnt (mch s p) = 1 then pushNew ?s2 p else ?s2) \<or>
                s' = (if iiCnt (mch s p) = 1 then addNew s1 p else s1)"
    unfolding c1 c2 .
  with v1 v2 show ?thesis by blast
qed

lemma add_eval_inv:
  assumes e: "add_eval gO gN s p red = Some (ret, s')"
  shows "kview s' = kview s"
    and "lists_on S s old new \<Longrightarrow> iiCnt (mch s p) \<noteq> 1 \<Longrightarrow> LS S s'"
    and "lists_on S s old new \<Longrightarrow> iiCnt (mch s p) = 1 \<Longrightarrow> p \<notin> S \<Longrightarrow> p < length (msMch s)
           \<Longrightarrow> LS (insert p S) s'"
proof -
  note cs = add_eval_cases[OF e]
  show "kview s' = kview s"
  proof -
    from cs consider "s' = s" | s2 where "sview s2 = sview s" "s' = pushNew s2 p \<or> s' = addNew s2 p \<or> s' = s2"
      by (auto split: if_splits)
    thus ?thesis
    proof cases
      case 1 thus ?thesis by simp
    next
      case 2
      from 2(2) have "kview s' = kview s2" by auto
      with sview_kview[OF 2(1)] show ?thesis by simp
    qed
  qed
  show "LS S s'" if l: "lists_on S s old new" and n: "iiCnt (mch s p) \<noteq> 1"
  proof -
    from cs n consider "s' = s" | s2 where "sview s2 = sview s" "s' = s2"
      by auto
    thus ?thesis
    proof cases
      case 1 with l show ?thesis by (auto intro: LS_I)
    next
      case 2
      from lists_on_sview[OF 2(1), of S old new] l 2(2) show ?thesis by (auto intro: LS_I)
    qed
  qed
  show "LS (insert p S) s'"
    if l: "lists_on S s old new" and "iiCnt (mch s p) = 1" "p \<notin> S" "p < length (msMch s)"
  proof -
    from cs that obtain s2 where v: "sview s2 = sview s" and
      s': "s' = pushNew s2 p \<or> s' = addNew s2 p" by auto
    from l lists_on_sview[OF v, of S old new] have l2: "lists_on S s2 old new" by simp
    from that have p2: "p < length (msMch s2)" using kview_len[OF sview_kview[OF v]] by simp
    from s' pushNew_lists[OF l2 that(3) p2] addNew_lists[OF l2 that(3) p2]
    show ?thesis by (auto intro: LS_I)
  qed
qed

lemma base_kview:
  assumes "kview s' = kview s"
  shows "base A s' = base A s"
  unfolding base_def
  by (simp only: sizes_kview[OF assms] chains_on_kview[OF assms] allocd_kview[OF assms])

lemma base_jview:
  assumes "jview s' = jview s" "chains_on A s'" "base A s"
  shows "base A s'"
  using assms(2,3) unfolding base_def
  by (simp only: sizes_jview[OF assms(1)] allocd_jview[OF assms(1)])

lemma kview_sze: "kview s' = kview s \<Longrightarrow> miMchSze s' = miMchSze s"
  using kviewD[of s' s] zviewD[of s' s] by (simp only:)

lemma jview_sze: "jview s' = jview s \<Longrightarrow> miMchSze s' = miMchSze s"
  using jviewD[of s' s] zviewD[of s' s] by (simp only:)

lemma mch_inv_base: "mch_inv s = (\<exists>A. base A s \<and> LS A s)"
  by (auto simp: mch_inv_def base_def)

lemma base_bound: "base A s \<Longrightarrow> p \<in> A \<Longrightarrow> p < length (msMch s)"
  by (auto simp: base_def dest: allocd_bound)

lemma LS_E: "LS S s \<Longrightarrow> (\<And>old new. lists_on S s old new \<Longrightarrow> P) \<Longrightarrow> P"
  by (auto simp: LS_def)

lemma take_old:
  assumes b: "base A s" and l: "LS A s" and o: "mpOld s = Some p"
    and n: "nextold (s\<lparr>mpOld := ipNxt (mch s p)\<rparr>) = Some (r, s2)"
  shows "p \<in> A \<and> base A s2 \<and> LS (A - {p}) s2 \<and> miMchSze s2 = miMchSze s"
proof -
  from l obtain old new where ll: "lists_on A s old new" by (rule LS_E)
  from pop_old[OF ll o] obtain old' where
    p: "p \<in> A" "lists_on (A - {p}) (s\<lparr>mpOld := ipNxt (mch s p)\<rparr>) old' new" by blast
  from nextold_inv[OF n, of "A - {p}"] p(2)
  have "LS (A - {p}) s2" "kview s2 = kview (s\<lparr>mpOld := ipNxt (mch s p)\<rparr>)"
    by (auto intro: LS_I)
  hence "LS (A - {p}) s2" "kview s2 = kview s" by simp_all
  with base_kview[of s2 s A] kview_sze[of s2 s] b p(1) show ?thesis by simp
qed

lemma put_new:
  assumes b: "base A s" and l: "LS (A - {p}) s" and p: "p \<in> A"
  shows "base A (addNew s p) \<and> LS A (addNew s p) \<and> miMchSze (addNew s p) = miMchSze s"
proof -
  from l obtain old new where ll: "lists_on (A - {p}) s old new" by (rule LS_E)
  from addNew_lists[OF ll, of p] base_bound[OF b p] p
  have "lists_on A (addNew s p) old (new @ [p])" by (simp add: insert_absorb)
  moreover have "base A (addNew s p)" using b base_kview[of "addNew s p" s A] by simp
  moreover have "miMchSze (addNew s p) = miMchSze s" by (rule kview_sze) simp
  ultimately show ?thesis by (auto intro: LS_I)
qed

lemma eval_old:
  assumes b: "base A s" and l: "LS A s" and c: "iiCnt (mch s p) \<noteq> 1"
    and e: "add_eval gO gN s p red = Some (ret, s')"
  shows "mch_inv s' \<and> miMchSze s' = miMchSze s"
proof -
  from l obtain old new where ll: "lists_on A s old new" by (rule LS_E)
  from add_eval_inv(1)[OF e] add_eval_inv(2)[OF e ll c] b base_kview[of s' s A] kview_sze[of s' s]
  show ?thesis by (auto simp: mch_inv_base)
qed

lemma eval_new:
  assumes b: "base A s" and l: "LS (A - {p}) s" and p: "p \<in> A" and c: "iiCnt (mch s p) = 1"
    and e: "add_eval gO gN s p red = Some (ret, s')"
  shows "mch_inv s' \<and> miMchSze s' = miMchSze s"
proof -
  from l obtain old new where ll: "lists_on (A - {p}) s old new" by (rule LS_E)
  from add_eval_inv(3)[OF e ll c _ base_bound[OF b p]] p
  have "LS A s'" by (simp add: insert_absorb)
  with add_eval_inv(1)[OF e] b base_kview[of s' s A] kview_sze[of s' s]
  show ?thesis by (auto simp: mch_inv_base)
qed

lemma fill_base:
  assumes b: "base A s" and p: "p < length (msMch s)" and l: "LS S s"
  shows "chains_on (insert p A) (add_fill s p org new) \<and> sizes (add_fill s p org new) \<and>
         allocd (add_fill s p org new) = allocd s \<and> LS S (add_fill s p org new) \<and>
         iiCnt (mch (add_fill s p org new) p) = 1 \<and>
         miMchSze (add_fill s p org new) = miMchSze s"
proof -
  from b have "chains_on A s" "sizes s" by (simp_all add: base_def)
  from add_fill_inv[OF this p, of org new]
  have f: "chains_on (insert p A) (add_fill s p org new)"
       "jview (add_fill s p org new) = jview s"
       "iiCnt (mch (add_fill s p org new) p) = 1" by simp_all
  from f \<open>sizes s\<close> l sizes_jview[OF f(2)] allocd_jview[OF f(2)] LS_jview[OF f(2), of S]
    jview_sze[OF f(2)]
  show ?thesis by simp
qed

lemma add_SomeD:
  assumes a: "JMatchTable_add t gO gN s org new red = Some (ret, s')"
  shows "\<exists>lp s1. add_join t s org new = Some (lp, s1) \<and>
     (case lp of
         Some p \<Rightarrow>
           do {
             s2 \<leftarrow> (if mpOld s1 = Some p
                     then do {
                            (b, s') \<leftarrow> nextold (s1\<lparr>mpOld := ipNxt (mch s1 p)\<rparr>);
                            Some (addNew s' p)
                          }
                     else Some s1);
             add_eval gO gN s2 p red
           }
       | None \<Rightarrow>
           if miMchFre s1 > 0
           then add_eval gO gN
                  (add_fill (s1\<lparr>miMchFre := miMchFre s1 - 1\<rparr>) (nat (miMchFre s1 - 1))
                     org new)
                  (nat (miMchFre s1 - 1)) red
           else
             (case mpOld s1 of
                Some p \<Rightarrow>
                  do {
                    (b, s2) \<leftarrow> nextold (s1\<lparr>mpOld := ipNxt (mch s1 p)\<rparr>);
                    s3 \<leftarrow> (if iiCnt (mch s2 p) = 1 \<or> iiGld (mch s2 p) = 0
                            then delCol s2 p else Some s2);
                    s4 \<leftarrow> (if iiCnt (mch s3 p) = 1 \<or> iiGld (mch s3 p) \<noteq> 0
                            then delGld s3 p else Some s3);
                    add_eval gO gN (add_fill s4 p org new) p red
                  }
              | None \<Rightarrow> Some (Error, s1))) = Some (ret, s')"
  using a unfolding JMatchTable_add_def
  by (simp only: bind_eq_Some_conv split_paired_Ex prod.case)

lemma add_found:
  assumes b: "base A s1" and l: "LS A s1" and p: "p \<in> A" and c: "2 \<le> iiCnt (mch s1 p)"
    and a: "do {
             s2 \<leftarrow> (if mpOld s1 = Some p
                     then do {
                            (b, s') \<leftarrow> nextold (s1\<lparr>mpOld := ipNxt (mch s1 p)\<rparr>);
                            Some (addNew s' p)
                          }
                     else Some s1);
             add_eval gO gN s2 p red
           } = Some (ret, s')"
  shows "mch_inv s' \<and> miMchSze s' = miMchSze s1"
proof -
  from a obtain s2 where
    m: "(if mpOld s1 = Some p
         then do { (b, s') \<leftarrow> nextold (s1\<lparr>mpOld := ipNxt (mch s1 p)\<rparr>); Some (addNew s' p) }
         else Some s1) = Some s2" and
    e: "add_eval gO gN s2 p red = Some (ret, s')"
    by (auto simp only: bind_eq_Some_conv)
  have 2: "base A s2 \<and> LS A s2 \<and> kview s2 = kview s1"
  proof (cases "mpOld s1 = Some p")
    case False
    with m b l show ?thesis by simp
  next
    case True
    with m obtain r s'' where n: "nextold (s1\<lparr>mpOld := ipNxt (mch s1 p)\<rparr>) = Some (r, s'')"
      and s2: "s2 = addNew s'' p"
      by (auto simp: bind_eq_Some_conv)
    from take_old[OF b l True n] have t: "base A s''" "LS (A - {p}) s''" by simp_all
    from nextold_inv[OF n, of A] have "kview s'' = kview s1" by simp
    with put_new[OF t p] s2 show ?thesis by simp
  qed
  from 2 c kview_cnt[of s2 s1 p] have "iiCnt (mch s2 p) \<noteq> 1" by simp
  with 2 e eval_old[of A s2 p gO gN red ret s'] kview_sze[of s2 s1] show ?thesis by simp
qed

lemma add_fresh:
  assumes b: "base A s1" and l: "LS A s1" and f: "0 < miMchFre s1"
    and e: "add_eval gO gN
                  (add_fill (s1\<lparr>miMchFre := miMchFre s1 - 1\<rparr>) (nat (miMchFre s1 - 1))
                     org new)
                  (nat (miMchFre s1 - 1)) red = Some (ret, s')"
  shows "mch_inv s' \<and> miMchSze s' = miMchSze s1"
proof -
  let ?p = "nat (miMchFre s1 - 1)"
  let ?s = "s1\<lparr>miMchFre := miMchFre s1 - 1\<rparr>"
  let ?B = "insert ?p A"
  from b have z: "sizes s1" "chains_on A s1" "allocd s1 = A" by (simp_all add: base_def)
  from z(1) f have z': "sizes ?s" by (simp add: sizes_def)
  from z(1,3) f have A': "allocd ?s = ?B" "?p \<notin> A" "?p < length (msMch ?s)"
    by (auto simp: allocd_def sizes_def)
  have c': "chains_on A ?s" using z(2) chains_on_cview[of ?s s1 A] by simp
  have l': "LS A ?s" using l LS_jview[of ?s s1 A] by (simp add: jview_def lview_def zview_def LS_def lists_on_def oldList_def newList_def)
  let ?f = "add_fill ?s ?p org new"
  from add_fill_inv[OF c' z' A'(3), of org new]
  have fi: "chains_on ?B ?f" "jview ?f = jview ?s" "iiCnt (mch ?f ?p) = 1" by simp_all
  have bf: "base ?B ?f"
    using fi(1) z' A'(1) sizes_jview[OF fi(2)] allocd_jview[OF fi(2)] by (simp add: base_def)
  have lf: "LS (?B - {?p}) ?f" using l' A'(2) LS_jview[OF fi(2), of A] by simp
  from eval_new[OF bf lf _ fi(3) e] jview_sze[OF fi(2)] show ?thesis by simp
qed

lemma del_steps:
  assumes b: "base A s2" and p: "p \<in> A"
    and 3: "(if c3 then delCol s2 p else Some s2) = Some s3"
    and 4: "(if c4 then delGld s3 p else Some s3) = Some s4"
  shows "base A s4 \<and> jview s4 = jview s2"
proof -
  have s3: "base A s3 \<and> jview s3 = jview s2"
  proof (cases c3)
    case True
    with 3 have d: "delCol s2 p = Some s3" by simp
    from b have "chains_on A s2" "sizes s2" by (simp_all add: base_def)
    from delCol_inv[OF d this p] base_jview[of s3 s2 A] b show ?thesis by simp
  next
    case False with 3 b show ?thesis by simp
  qed
  show ?thesis
  proof (cases c4)
    case True
    with 4 have d: "delGld s3 p = Some s4" by simp
    from s3 have "chains_on A s3" "sizes s3" by (simp_all add: base_def)
    from delGld_inv[OF d this p] base_jview[of s4 s3 A] s3 show ?thesis by simp
  next
    case False with 4 s3 show ?thesis by simp
  qed
qed

lemma add_reuse:
  assumes b: "base A s1" and l: "LS A s1" and o: "mpOld s1 = Some p"
    and a: "do {
                    (b, s2) \<leftarrow> nextold (s1\<lparr>mpOld := ipNxt (mch s1 p)\<rparr>);
                    s3 \<leftarrow> (if iiCnt (mch s2 p) = 1 \<or> iiGld (mch s2 p) = 0
                            then delCol s2 p else Some s2);
                    s4 \<leftarrow> (if iiCnt (mch s3 p) = 1 \<or> iiGld (mch s3 p) \<noteq> 0
                            then delGld s3 p else Some s3);
                    add_eval gO gN (add_fill s4 p org new) p red
                  } = Some (ret, s')"
  shows "mch_inv s' \<and> miMchSze s' = miMchSze s1"
proof -
  from a obtain r s2 s3 s4 where
    n: "nextold (s1\<lparr>mpOld := ipNxt (mch s1 p)\<rparr>) = Some (r, s2)" and
    3: "(if iiCnt (mch s2 p) = 1 \<or> iiGld (mch s2 p) = 0 then delCol s2 p else Some s2) = Some s3" and
    4: "(if iiCnt (mch s3 p) = 1 \<or> iiGld (mch s3 p) \<noteq> 0 then delGld s3 p else Some s3) = Some s4" and
    e: "add_eval gO gN (add_fill s4 p org new) p red = Some (ret, s')"
    by (auto simp only: bind_eq_Some_conv split_paired_Ex prod.case)
  from take_old[OF b l o n] have t: "p \<in> A" "base A s2" "LS (A - {p}) s2"
    and z2: "miMchSze s2 = miMchSze s1" by simp_all
  from del_steps[OF t(2,1) 3 4] have d: "base A s4" "jview s4 = jview s2" by simp_all
  from t(3) LS_jview[OF d(2), of "A - {p}"] have l4: "LS (A - {p}) s4" by simp
  from fill_base[OF d(1) base_bound[OF d(1) t(1)] l4, of org new] d(1) t(1)
  have "base A (add_fill s4 p org new)" "LS (A - {p}) (add_fill s4 p org new)"
       "iiCnt (mch (add_fill s4 p org new) p) = 1"
       "miMchSze (add_fill s4 p org new) = miMchSze s4"
    by (simp_all add: base_def insert_absorb)
  from eval_new[OF this(1,2) t(1) this(3) e] this(4) jview_sze[OF d(2)] z2 show ?thesis by simp
qed

lemma JMatchTable_add_inv:
  assumes i: "mch_inv s" and a: "JMatchTable_add t gO gN s org new red = Some (ret, s')"
  shows "mch_inv s' \<and> miMchSze s' = miMchSze s"
proof -
  let ?A = "allocd s"
  from i have b: "base ?A s" and l: "LS ?A s" by (simp_all add: mch_inv_def base_def)
  from add_SomeD[OF a] obtain lp s1 where
    j: "add_join t s org new = Some (lp, s1)" and
    r: "(case lp of
         Some p \<Rightarrow>
           do {
             s2 \<leftarrow> (if mpOld s1 = Some p
                     then do {
                            (b, s') \<leftarrow> nextold (s1\<lparr>mpOld := ipNxt (mch s1 p)\<rparr>);
                            Some (addNew s' p)
                          }
                     else Some s1);
             add_eval gO gN s2 p red
           }
       | None \<Rightarrow>
           if miMchFre s1 > 0
           then add_eval gO gN
                  (add_fill (s1\<lparr>miMchFre := miMchFre s1 - 1\<rparr>) (nat (miMchFre s1 - 1))
                     org new)
                  (nat (miMchFre s1 - 1)) red
           else
             (case mpOld s1 of
                Some p \<Rightarrow>
                  do {
                    (b, s2) \<leftarrow> nextold (s1\<lparr>mpOld := ipNxt (mch s1 p)\<rparr>);
                    s3 \<leftarrow> (if iiCnt (mch s2 p) = 1 \<or> iiGld (mch s2 p) = 0
                            then delCol s2 p else Some s2);
                    s4 \<leftarrow> (if iiCnt (mch s3 p) = 1 \<or> iiGld (mch s3 p) \<noteq> 0
                            then delGld s3 p else Some s3);
                    add_eval gO gN (add_fill s4 p org new) p red
                  }
              | None \<Rightarrow> Some (Error, s1))) = Some (ret, s')"
    by blast
  from b have z: "sizes s" "chains_on ?A s" by (simp_all add: base_def)
  from add_join_inv[OF j z(2,1) allocd_bound[OF z(1)]]
  have ji: "chains_on ?A s1" "jview s1 = jview s"
    "\<And>p. lp = Some p \<Longrightarrow> p \<in> ?A \<and> 2 \<le> iiCnt (mch s1 p)" by simp_all
  from base_jview[OF ji(2,1) b] have b1: "base ?A s1" .
  from l LS_jview[OF ji(2), of ?A] have l1: "LS ?A s1" by simp
  note z1 = jview_sze[OF ji(2)]
  show ?thesis
  proof (cases lp)
    case (Some p)
    with r ji(3)[OF Some] add_found[OF b1 l1, of p gO gN red ret s'] z1 show ?thesis by simp
  next
    case None
    show ?thesis
    proof (cases "0 < miMchFre s1")
      case True
      with None r add_fresh[OF b1 l1 True, of gO gN org new red ret s'] z1 show ?thesis by simp
    next
      case False
      show ?thesis
      proof (cases "mpOld s1")
        case on: None
        with None False r have "s' = s1" by simp
        with b1 l1 z1 show ?thesis by (auto simp: mch_inv_base)
      next
        case (Some p)
        with None False r add_reuse[OF b1 l1 Some, of gO gN org new red ret s'] z1 show ?thesis by simp
      qed
    qed
  qed
qed

lemma LS_sview:
  assumes "sview s' = sview s"
  shows "LS S s' = LS S s"
  by (rule LS_jview[OF sview_jview[OF assms]])

lemma base_sview:
  assumes "sview s' = sview s"
  shows "base A s' = base A s"
  by (rule base_kview[OF sview_kview[OF assms]])

lemma nxt_sview:
  assumes "sview s' = sview s"
  shows "ipNxt (mch s' p) = ipNxt (mch s p)"
proof -
  from sviewD[OF assms] have "nxt s' = nxt s" by (simp add: lview_def)
  from fun_cong[OF this, of p] show ?thesis by (simp add: nxt_mch)
qed

lemma cleanup_loop_sview:
  assumes "cleanup_loop gO gN red s lp = Some s'"
  shows "sview s' = sview s"
proof (rule cleanup_loop.raw_induct
    [where P = "\<lambda>gO gN red s lp s'. sview s' = sview s", OF _ assms], goal_cases)
  case (1 f gO gN red s lp s')
  show ?case
  proof (cases lp)
    case None
    with 1(2) show ?thesis by simp
  next
    case (Some p)
    with 1(2) obtain s1 where
      a: "(if isOld2Skip (mch s p) red
           then Some (upd s p (\<lambda>r. r\<lparr>iiCmp := CMPSKP\<rparr>))
           else map_option snd (isGoodOrBest gO gN s red p)) = Some s1" and
      b: "f gO gN red s1 (ipNxt (mch s1 p)) = Some s'"
      by (auto simp: bind_eq_Some_conv)
    have "sview s1 = sview s"
    proof (cases "isOld2Skip (mch s p) red")
      case True
      with a have "s1 = upd s p (\<lambda>r. r\<lparr>iiCmp := CMPSKP\<rparr>)" by simp
      thus ?thesis by (simp add: sview_upd_keep)
    next
      case False
      with a obtain x where "isGoodOrBest gO gN s red p = Some (x, s1)" by auto
      thus ?thesis by (rule isGoodOrBest_sview)
    qed
    with 1(1)[OF b] show ?thesis by simp
  qed
qed

lemma getbest_loop_sview:
  assumes "getbest_loop red s lp b = Some r"
  shows "sview (snd r) = sview s"
proof (rule getbest_loop.raw_induct
    [where P = "\<lambda>red s lp b r. sview (snd r) = sview s", OF _ assms], goal_cases)
  case (1 f red s lp b r)
  show ?case
  proof (cases lp)
    case None
    with 1(2) show ?thesis by auto
  next
    case (Some p)
    show ?thesis
    proof (cases "Some p \<noteq> mpBst s \<and> iiCmp (mch s p) \<le> CMPEOB \<and> izNew (mch s p) > izTst (mch s p)")
      case True
      with Some 1(2) obtain x where
        a: "isBest s p red 0 (izTst (mch s p)) (iiCmp (mch s p)) = Some x" and
        b: "f red (snd x) (ipNxt (mch (snd x) p)) (fst x \<or> b) = Some r"
        by (auto simp: bind_eq_Some_conv)
      from a have "sview (snd x) = sview s" by (cases x) (auto dest: isBest_sview)
      with 1(1)[OF b] show ?thesis by simp
    next
      case False
      with Some 1(2) have "f red s (ipNxt (mch s p)) b = Some r" by auto
      from 1(1)[OF this] show ?thesis .
    qed
  qed
qed

lemma join_inv:
  assumes i: "mch_inv s"
  shows "mch_inv (joinLists s) \<and> miMchSze (joinLists s) = miMchSze s"
proof -
  let ?A = "allocd s"
  from i have b: "base ?A s" and l: "LS ?A s" by (simp_all add: mch_inv_def base_def)
  from l obtain old new where "lists_on ?A s old new" by (rule LS_E)
  from joinLists_lists[OF this] have "LS ?A (joinLists s)" by (rule LS_I)
  moreover have "base ?A (joinLists s)" using b base_kview[of "joinLists s" s ?A] by simp
  moreover have "miMchSze (joinLists s) = miMchSze s" by (rule kview_sze) simp
  ultimately show ?thesis by (auto simp: mch_inv_base)
qed

lemma mch_inv_sview:
  assumes "sview s' = sview s"
  shows "mch_inv s' = mch_inv s"
  unfolding mch_inv_base by (simp only: base_sview[OF assms] LS_sview[OF assms])

lemma sview_sze: "sview s' = sview s \<Longrightarrow> miMchSze s' = miMchSze s"
  by (rule kview_sze[OF sview_kview])

lemma nextold_mch_inv:
  assumes i: "mch_inv s" and n: "nextold s = Some (b, s')"
  shows "mch_inv s' \<and> miMchSze s' = miMchSze s"
proof -
  let ?A = "allocd s"
  from i have b: "base ?A s" and l: "LS ?A s" by (simp_all add: mch_inv_def base_def)
  from nextold_inv[OF n, of ?A] l have "LS ?A s'" "kview s' = kview s" by simp_all
  with b base_kview[of s' s ?A] kview_sze[of s' s] show ?thesis by (auto simp: mch_inv_base)
qed

lemma JMatchTable_cleanup_inv:
  assumes i: "mch_inv s" and c: "JMatchTable_cleanup gO gN rlb s bse red = Some (ret, s')"
  shows "mch_inv s' \<and> miMchSze s' = miMchSze s"
proof -
  let ?s1 = "(joinLists (s\<lparr>miRlb := rlb\<rparr>))\<lparr>mpBst := None, mzOld := red\<rparr>"
  from c obtain s2 b where
    l: "cleanup_loop gO gN red ?s1 (mpOld ?s1) = Some s2" and
    n: "nextold s2 = Some (b, s')"
    unfolding JMatchTable_cleanup_def Let_def
    by (auto simp only: bind_eq_Some_conv split_paired_Ex prod.case option.inject prod.inject)
  have "sview (s\<lparr>miRlb := rlb\<rparr>) = sview s" by simp
  from mch_inv_sview[OF this] sview_sze[OF this] i
  have "mch_inv (s\<lparr>miRlb := rlb\<rparr>)" "miMchSze (s\<lparr>miRlb := rlb\<rparr>) = miMchSze s" by simp_all
  with join_inv[of "s\<lparr>miRlb := rlb\<rparr>"]
  have j: "mch_inv (joinLists (s\<lparr>miRlb := rlb\<rparr>))" "miMchSze (joinLists (s\<lparr>miRlb := rlb\<rparr>)) = miMchSze s"
    by simp_all
  have "sview ?s1 = sview (joinLists (s\<lparr>miRlb := rlb\<rparr>))" by simp
  from mch_inv_sview[OF this] sview_sze[OF this] j
  have 1: "mch_inv ?s1" "miMchSze ?s1 = miMchSze s" by simp_all
  note v = cleanup_loop_sview[OF l]
  from mch_inv_sview[OF v] sview_sze[OF v] 1
  have 2: "mch_inv s2" "miMchSze s2 = miMchSze s" by simp_all
  from nextold_mch_inv[OF 2(1) n] 2(2) show ?thesis by simp
qed

lemma JMatchTable_getbest_inv:
  assumes i: "mch_inv s" and g: "JMatchTable_getbest s ro rn bo bn = Some (ok, o', n', s')"
  shows "mch_inv s' \<and> miMchSze s' = miMchSze s"
proof (cases "mbCmpAll s")
  case True
  with g have "s' = s"
    unfolding JMatchTable_getbest_def
    by (auto simp only: bind_eq_Some_conv not_True_eq_False if_False option.inject prod.inject)
  with i show ?thesis by simp
next
  case False
  let ?j = "joinLists s"
  from g False obtain r where
    l: "getbest_loop rn ?j (mpOld ?j) False = Some r" and
    s': "s' = (if fst r \<and> mzBstOrg (snd r) = 0
               then (case calcPosOrg (mch (snd r) (the (mpBst (snd r)))) (mzBstNew (snd r)) of
                       (g, tstOrg, tstNew) \<Rightarrow> (snd r)\<lparr>mzBstOrg := tstOrg, mzBstNew := tstNew\<rparr>)
               else snd r)"
    unfolding JMatchTable_getbest_def
    by (auto simp: bind_eq_Some_conv)
  note v = getbest_loop_sview[OF l]
  have "sview s' = sview (snd r)"
    unfolding s' by (simp split: prod.splits)
  with v have "sview s' = sview ?j" by simp
  from mch_inv_sview[OF this] sview_sze[OF this] join_inv[OF i] show ?thesis by simp
qed

lemma mchCall_run_inv:
  assumes i: "mch_inv s" and r: "mchCall_run t gO gN s c = Some s'"
  shows "mch_inv s' \<and> miMchSze s' = miMchSze s"
proof (cases c)
  case (Add a b d)
  with r obtain ret where "JMatchTable_add t gO gN s a b d = Some (ret, s')" by auto
  from JMatchTable_add_inv[OF i this] show ?thesis .
next
  case (Cleanup a b d)
  with r obtain ret where "JMatchTable_cleanup gO gN d s a b = Some (ret, s')" by auto
  from JMatchTable_cleanup_inv[OF i this] show ?thesis .
next
  case (Getbest a b)
  with r obtain ok o' n' where "JMatchTable_getbest s a b 0 0 = Some (ok, o', n', s')" by auto
  from JMatchTable_getbest_inv[OF i this] show ?thesis .
qed

lemma mchCalls_run_inv:
  "mch_inv s \<Longrightarrow> mchCalls_run t gO gN s cs = Some s' \<Longrightarrow> mch_inv s' \<and> miMchSze s' = miMchSze s"
proof (induction cs arbitrary: s)
  case Nil
  thus ?case by simp
next
  case (Cons c cs)
  from Cons.prems(2) obtain s1 where
    1: "mchCall_run t gO gN s c = Some s1" and 2: "mchCalls_run t gO gN s1 cs = Some s'"
    by (auto split: option.splits)
  from mchCall_run_inv[OF Cons.prems(1) 1] Cons.IH[OF _ 2] show ?case by simp
qed

lemma getLowerPrime_loop_pos: "2 \<le> n \<Longrightarrow> 0 < getLowerPrime_loop n"
proof (induction n rule: getLowerPrime_loop.induct)
  case (1 n)
  show ?case
  proof (cases "isPrime n")
    case True
    with 1(2) show ?thesis by (subst getLowerPrime_loop.simps) simp
  next
    case False
    hence "n \<noteq> 2" by (auto simp: isPrime_def)
    with 1(2) have "2 \<le> n - 1" by simp
    with 1 False show ?thesis by (subst getLowerPrime_loop.simps) simp
  qed
qed

lemma getLowerPrime_pos: "2 \<le> n \<Longrightarrow> 0 < getLowerPrime n"
  by (simp add: getLowerPrime_def getLowerPrime_loop_pos)

lemma JMatchTable_new_inv:
  assumes "0 < aiMchSze" "length pool = nat (if aiMchSze < 13 then 13 else aiMchSze)"
  shows "mch_inv (JMatchTable_new pool rpr fo fn aiMchSze abCmpAll aiAhdMax)"
proof -
  from assms(1) have p: "0 < getLowerPrime (aiMchSze * 2)" by (intro getLowerPrime_pos) simp
  let ?s = "JMatchTable_new pool rpr fo fn aiMchSze abCmpAll aiAhdMax"
  have "sizes ?s" using assms p by (simp add: sizes_def JMatchTable_new_def)
  moreover have a: "allocd ?s = {}" by (simp add: allocd_def JMatchTable_new_def)
  moreover have "chains_on {} ?s" by (simp add: chains_on_def JMatchTable_new_def)
  moreover have "lists_on {} ?s [] []"
    by (simp add: lists_on_def oldList_def newList_def JMatchTable_new_def)
  ultimately show ?thesis by (auto simp: mch_inv_def intro: LS_I)
qed

lemma mch_inv_count:
  assumes "mch_inv s"
  shows "\<exists>old new. oldList s old \<and> newList s new \<and>
           int (length old) + int (length new) + miMchFre s = miMchSze s"
proof -
  from assms obtain old new where l: "lists_on (allocd s) s old new" and z: "sizes s"
    by (auto simp: mch_inv_def LS_def)
  from l have d: "distinct (old @ new)" "set (old @ new) = allocd s" by (simp_all add: lists_on_def)
  from d have "length (old @ new) = card (allocd s)" by (metis distinct_card)
  hence "length old + length new = nat (miMchSze s) - nat (miMchFre s)"
    by (simp add: allocd_def)
  with z have "int (length old) + int (length new) + miMchFre s = miMchSze s"
    unfolding sizes_def by linarith
  with l show ?thesis by (auto simp: lists_on_def)
qed

subsection \<open>The lists are determined by the table\<close>

lemma linked_comparable:
  "linked nx xs \<Longrightarrow> linked nx ys \<Longrightarrow> first xs = first ys \<Longrightarrow>
     (\<exists>zs. ys = xs @ zs) \<or> (\<exists>zs. xs = ys @ zs)"
proof (induction xs arbitrary: ys)
  case Nil
  thus ?case by simp
next
  case (Cons x xs)
  from Cons.prems(3) obtain ys' where ys: "ys = x # ys'" by (cases ys) auto
  show ?case
  proof (cases "xs = [] \<or> ys' = []")
    case True
    with ys show ?thesis by auto
  next
    case False
    with Cons.prems ys have "linked nx xs" "linked nx ys'" "first xs = first ys'"
      by (auto simp: linked_Cons)
    from Cons.IH[OF this] ys show ?thesis by auto
  qed
qed

lemma first_eq_Nil: "first us = first vs \<Longrightarrow> us = [] \<Longrightarrow> vs = []"
  by (cases vs) auto

lemma oldList_ext:
  assumes "oldList s us" "oldList s (us @ zs)"
  shows "zs = []"
proof (cases "us = []")
  case True
  with assms have "first (us @ zs) = first us" by (simp only: oldList_def)
  with True show ?thesis using first_eq_Nil[of us "us @ zs"] by simp
next
  case False
  with assms(1) have "nxt s (last us) = None" by (auto simp: oldList_def)
  moreover from assms(2) have "linked (nxt s) (us @ zs)" by (simp only: oldList_def)
  ultimately show ?thesis using False by (auto simp: linked_append)
qed

lemma oldList_unique:
  assumes "oldList s xs" "oldList s ys"
  shows "xs = ys"
proof -
  from assms have l: "linked (nxt s) xs" "linked (nxt s) ys" "first xs = first ys"
    by (auto simp: oldList_def)
  from linked_comparable[OF l] show ?thesis
  proof (elim disjE exE)
    fix zs assume y: "ys = xs @ zs"
    from oldList_ext[OF assms(1) assms(2)[unfolded y]] y show ?thesis by simp
  next
    fix zs assume x: "xs = ys @ zs"
    from oldList_ext[OF assms(2) assms(1)[unfolded x]] x show ?thesis by simp
  qed
qed

lemma newList_ext:
  assumes "newList s us" "newList s (us @ zs)"
  shows "zs = []"
proof (cases "us = []")
  case True
  with assms have "first (us @ zs) = first us" by (simp only: newList_def)
  with True show ?thesis using first_eq_Nil[of us "us @ zs"] by simp
next
  case False
  show ?thesis
  proof (rule ccontr)
    assume z: "zs \<noteq> []"
    from False assms(1) have "mpLst s = Some (last us)" by (auto simp: newList_def)
    moreover from z assms(2) have "mpLst s = Some (last zs)" by (auto simp: newList_def)
    ultimately have "last us = last zs" by simp
    moreover have "last us \<in> set us" "last zs \<in> set zs" using False z by simp_all
    moreover from assms(2) have "distinct (us @ zs)" by (simp only: newList_def)
    ultimately show False by auto
  qed
qed

lemma newList_unique:
  assumes "newList s xs" "newList s ys"
  shows "xs = ys"
proof -
  from assms have l: "linked (nxt s) xs" "linked (nxt s) ys" "first xs = first ys"
    by (auto simp: newList_def)
  from linked_comparable[OF l] show ?thesis
  proof (elim disjE exE)
    fix zs assume y: "ys = xs @ zs"
    from newList_ext[OF assms(1) assms(2)[unfolded y]] y show ?thesis by simp
  next
    fix zs assume x: "xs = ys @ zs"
    from newList_ext[OF assms(2) assms(1)[unfolded x]] x show ?thesis by simp
  qed
qed

text \<open>
  Claim C6.  Match-table accounting: after any sequence of complete calls of \<open>add\<close>,
  \<open>cleanup\<close> and \<open>getbest\<close> on a newly constructed table, the number of records on the old
  list plus the number of records on the new list plus the number of unused records
  \<open>miMchFre\<close> equals the size \<open>miMchSze\<close> of the table, which the constructor has set to the
  requested size, or to 13 if less was requested.
\<close>

theorem match_table_accounting:
  assumes "0 < aiMchSze" and "length pool = nat (if aiMchSze < 13 then 13 else aiMchSze)"
    and "mchCalls_run t getOrg getNew
           (JMatchTable_new pool rpr fo fn aiMchSze abCmpAll aiAhdMax) cs = Some s"
  shows "miMchSze s = (if aiMchSze < 13 then 13 else aiMchSze) \<and>
         (\<exists>old new. oldList s old \<and> newList s new \<and>
            int (length old) + int (length new) + miMchFre s = miMchSze s)"
proof -
  from mchCalls_run_inv[OF JMatchTable_new_inv[OF assms(1,2)] assms(3)]
  have "mch_inv s" "miMchSze s = (if aiMchSze < 13 then 13 else aiMchSze)"
    by (simp_all add: JMatchTable_new_def)
  with mch_inv_count[of s] show ?thesis by simp
qed

theorem match_table_accounting_witness:
  "\<exists>s. mchCalls_run TYPE(32) (fun_get (mem_byte mch_org0)) (fun_get (mem_byte mch_new0))
          (JMatchTable_new mch_pool0 0 () () 4 False 0) mch_calls0 = Some s \<and>
        miMchFre s = 0 \<and> mpOld s = Some 9 \<and> mpNew s = Some 6 \<and> mpLst s = Some 8 \<and>
        miMchSze s = 13 \<and>
        (\<exists>old new. oldList s old \<and> newList s new \<and>
           int (length old) + int (length new) + miMchFre s = miMchSze s)"
proof -
  have "map_option (\<lambda>s. (miMchFre s, mpOld s, mpNew s, mpLst s))
          (mchCalls_run TYPE(32) (fun_get (mem_byte mch_org0)) (fun_get (mem_byte mch_new0))
             (JMatchTable_new mch_pool0 0 () () 4 False 0) mch_calls0)
        = Some (0, Some 9, Some 6, Some 8)"
    by code_simp
  then obtain s where
    r: "mchCalls_run TYPE(32) (fun_get (mem_byte mch_org0)) (fun_get (mem_byte mch_new0))
          (JMatchTable_new mch_pool0 0 () () 4 False 0) mch_calls0 = Some s" and
    f: "miMchFre s = 0" "mpOld s = Some 9" "mpNew s = Some 6" "mpLst s = Some 8"
    by auto
  have "length mch_pool0 = nat (if (4::int) < 13 then 13 else 4)"
    by (simp add: mch_pool0_def)
  have "(0::int) < 4" by simp
  from match_table_accounting [OF this \<open>length mch_pool0 = _\<close> r]
  have "miMchSze s = (if (4::int) < 13 then 13 else 4) \<and>
    (\<exists>old new. oldList s old \<and> newList s new \<and>
       int (length old) + int (length new) + miMchFre s = miMchSze s)"
    .
  hence a: "miMchSze s = 13"
    "\<exists>old new. oldList s old \<and> newList s new \<and>
       int (length old) + int (length new) + miMchFre s = miMchSze s"
    by (simp, rule conjunct2)
  show ?thesis
    by (intro exI[of _ s] conjI) (rule r f a)+
qed

end
